theory Spec2Isabelle
  imports Main "HOL-Library.Sublist" "HOL-Library.Word"
begin

section \<open>Text values and the string primitives used by \<open>reformat.py\<close>\<close>

text \<open>
  A Python \<open>str\<close> is a sequence of Unicode code points; it is modelled as a list of
  natural numbers (the code points). A Python \<open>bytes\<close> value is a list of 8-bit words.
  A \<open>Path\<close> is modelled by its string form \<open>str(path)\<close>, an 8-bit \<open>string\<close>, in the
  normal form that \<open>pathlib\<close> produces (components separated by single slashes, no
  trailing slash).
\<close>

type_synonym str = "nat list"
type_synonym bytes = "8 word list"
type_synonym path = string

abbreviation TAB :: nat where "TAB \<equiv> 9"
abbreviation LF :: nat where "LF \<equiv> 10"
abbreviation CR :: nat where "CR \<equiv> 13"
abbreviation SP :: nat where "SP \<equiv> 32"

text \<open>The code points of an ASCII literal.\<close>

definition ustr :: "string \<Rightarrow> str" where
  "ustr s = map of_char s"

text \<open>
  \<open>str.replace(old, new)\<close>: the non-overlapping occurrences of \<open>old\<close> are replaced from
  left to right. Every call site of the source passes a non-empty \<open>old\<close>; for an empty
  \<open>old\<close> (where Python interleaves \<open>new\<close>) the model returns the string unchanged.
\<close>

function replace :: "str \<Rightarrow> str \<Rightarrow> str \<Rightarrow> str" where
  "replace [] old new = []"
| "replace (c # cs) old new =
     (if old \<noteq> [] \<and> prefix old (c # cs)
      then new @ replace (drop (length old) (c # cs)) old new
      else c # replace cs old new)"
  by pat_completeness auto
termination
  by (relation "measure (\<lambda>(s, old, new). length s)") auto

text \<open>\<open>str.split(sep)\<close> for a one-character separator: never returns the empty list.\<close>

fun split_on :: "nat \<Rightarrow> str \<Rightarrow> str list" where
  "split_on sep [] = [[]]"
| "split_on sep (c # cs) =
     (if c = sep then [] # split_on sep cs
      else (case split_on sep cs of
              [] \<Rightarrow> [[c]]
            | l # ls \<Rightarrow> (c # l) # ls))"

text \<open>\<open>sep.join(parts)\<close>.\<close>

fun join :: "str \<Rightarrow> str list \<Rightarrow> str" where
  "join sep [] = []"
| "join sep [x] = x"
| "join sep (x # y # ys) = x @ sep @ join sep (y # ys)"

text \<open>\<open>s.rstrip(chars)\<close>: drops the longest suffix made of characters of \<open>chars\<close>.\<close>

definition rstrip :: "str \<Rightarrow> str \<Rightarrow> str" where
  "rstrip s chars = rev (dropWhile (\<lambda>c. c \<in> set chars) (rev s))"

text \<open>\<open>s.endswith(suf)\<close>.\<close>

definition endswith :: "str \<Rightarrow> str \<Rightarrow> bool" where
  "endswith s suf = suffix suf s"

text \<open>\<open>" " * n\<close> for a Python \<open>int\<close>: the empty string when \<open>n \<le> 0\<close>.\<close>

definition spaces :: "int \<Rightarrow> str" where
  "spaces n = replicate (nat n) SP"

section \<open>Paths and the classifier\<close>

text \<open>
  \<open>PurePath.name\<close>: the final path component; the empty path, whose string form is
  \<open>"."\<close>, has the empty name.
\<close>

definition path_name :: "path \<Rightarrow> string" where
  "path_name p = (if p = ''.'' then [] else rev (takeWhile (\<lambda>c. c \<noteq> CHR ''/'') (rev p)))"

text \<open>\<open>name.rfind('.')\<close>: the index of the last dot, or \<open>-1\<close>.\<close>

definition rfind_dot :: "string \<Rightarrow> int" where
  "rfind_dot name =
     (if CHR ''.'' \<in> set name
      then int (length name) - 1 - int (length (takeWhile (\<lambda>c. c \<noteq> CHR ''.'') (rev name)))
      else - 1)"

text \<open>
  \<open>PurePath.suffix\<close>:
  \<^verbatim>\<open>i = name.rfind('.'); return name[i:] if 0 < i < len(name) - 1 else ''\<close>
\<close>

definition path_suffix :: "path \<Rightarrow> string" where
  "path_suffix p =
     (let name = path_name p; i = rfind_dot name
      in if 0 < i \<and> i < int (length name) - 1 then drop (nat i) name else [])"

text \<open>
  \<open>str.lower()\<close> on the code points below 256: the ASCII capitals and the Latin-1
  capitals (U+00C0 to U+00DE without the multiplication sign) move up by 32.
\<close>

definition lower_char :: "char \<Rightarrow> char" where
  "lower_char c =
     (let n = (of_char c :: nat)
      in if (65 \<le> n \<and> n \<le> 90) \<or> (192 \<le> n \<and> n \<le> 222 \<and> n \<noteq> 215)
         then char_of (n + 32) else c)"

definition lower :: "string \<Rightarrow> string" where
  "lower s = map lower_char s"

definition INDENT_SIZE :: int where
  "INDENT_SIZE = 4"

definition MAKEFILE_NAMES :: "string set" where
  "MAKEFILE_NAMES = {''Makefile'', ''makefile'', ''GNUmakefile''}"

definition MAKEFILE_EXTS :: "string set" where
  "MAKEFILE_EXTS = {''.mk'', ''.mak''}"

definition BINARY_EXTS :: "string set" where
  "BINARY_EXTS =
     {''.png'', ''.jpg'', ''.jpeg'', ''.gif'', ''.bmp'', ''.ico'', ''.pdf'', ''.zip'', ''.gz'',
      ''.bz2'', ''.xz'', ''.7z'', ''.rar'', ''.jar'', ''.war'', ''.ear'', ''.class'', ''.exe'',
      ''.dll'', ''.pdb'', ''.so'', ''.dylib'', ''.a'', ''.o'', ''.obj'', ''.bin'', ''.psd'',
      ''.ai'', ''.sketch'', ''.blend'', ''.fbx'', ''.glb'', ''.glTF'', ''.otf'', ''.ttf'',
      ''.woff'', ''.woff2'', ''.eot'', ''.wasm'', ''.mp3'', ''.mp4'', ''.mov'', ''.avi'',
      ''.mkv'', ''.webm'', ''.iso''}"

definition looks_binary_bytes :: "bytes \<Rightarrow> bool" where
  "looks_binary_bytes sample = (0 \<in> set sample)"

definition is_potentially_text :: "path \<Rightarrow> bytes \<Rightarrow> bool" where
  "is_potentially_text p head =
     (if lower (path_suffix p) \<in> BINARY_EXTS then False else \<not> looks_binary_bytes head)"

definition is_makefile_like :: "path \<Rightarrow> bool" where
  "is_makefile_like p = (path_name p \<in> MAKEFILE_NAMES \<or> lower (path_suffix p) \<in> MAKEFILE_EXTS)"

section \<open>\<open>normalize_text\<close>\<close>

text \<open>
  The inner \<open>while\<close> loop of \<open>normalize_text\<close>:
  \<^verbatim>\<open>while i < len(line) and line[i] in (" ", "\t"): i += 1\<close>
\<close>

function leading_ws :: "str \<Rightarrow> nat \<Rightarrow> nat" where
  "leading_ws line i =
     (if i < length line \<and> line ! i \<in> {SP, TAB} then leading_ws line (i + 1) else i)"
  by pat_completeness auto
termination
  by (relation "measure (\<lambda>(line, i). length line - i)") auto

declare leading_ws.simps [simp del]

text \<open>The body of the \<open>for line in lines\<close> loop: tab conversion, then the trailing trim.\<close>

definition normalize_line :: "int \<Rightarrow> bool \<Rightarrow> bool \<Rightarrow> bool \<Rightarrow> str \<Rightarrow> str" where
  "normalize_line indent_size convert_tabs aggressive_tabs keep_tabs line =
     (let line1 =
        (if convert_tabs \<and> \<not> keep_tabs then
           (if aggressive_tabs then replace line [TAB] (spaces indent_size)
            else
              (let i = leading_ws line 0;
                   leading = replace (take i line) [TAB] (spaces indent_size)
               in leading @ drop i line))
         else line)
      in rstrip line1 [SP, TAB])"

text \<open>The first statement of \<open>normalize_text\<close>: \<^verbatim>\<open>s.replace("\r\n", "\n").replace("\r", "\n")\<close>.\<close>

definition unify_newlines :: "str \<Rightarrow> str" where
  "unify_newlines s = replace (replace s [CR, LF] [LF]) [CR] [LF]"

definition normalize_text :: "str \<Rightarrow> int \<Rightarrow> bool \<Rightarrow> bool \<Rightarrow> bool \<Rightarrow> str" where
  "normalize_text s indent_size convert_tabs aggressive_tabs keep_tabs =
     (let s1 = unify_newlines s;
          lines = split_on LF s1;
          out_lines = map (normalize_line indent_size convert_tabs aggressive_tabs keep_tabs) lines;
          txt = join [LF] out_lines
      in if \<not> endswith txt [LF] then txt @ [LF] else txt)"

section \<open>The UTF-8 codec\<close>

text \<open>
  \<open>bytes.decode("utf-8-sig")\<close> and \<open>str.encode("utf-8")\<close> are library code. They are
  modelled from the Unicode standard's table of well-formed UTF-8 byte sequences, which
  is what the strict CPython codec accepts and produces: shortest forms only, no
  surrogates (U+D800 to U+DFFF), nothing above U+10FFFF. A failing decode
  (\<open>UnicodeDecodeError\<close>) or encode (\<open>UnicodeEncodeError\<close>) is the value \<open>None\<close>.
\<close>

definition cont :: "nat \<Rightarrow> bool" where
  "cont b = (0x80 \<le> b \<and> b \<le> 0xBF)"

fun decode_utf8_nat :: "nat list \<Rightarrow> str option" where
  "decode_utf8_nat [] = Some []"
| "decode_utf8_nat (b0 # bs) =
     (if b0 < 0x80 then map_option ((#) b0) (decode_utf8_nat bs)
      else if 0xC2 \<le> b0 \<and> b0 \<le> 0xDF then
        (case bs of
           b1 # r \<Rightarrow>
             if cont b1
             then map_option ((#) ((b0 - 0xC0) * 64 + (b1 - 0x80))) (decode_utf8_nat r)
             else None
         | _ \<Rightarrow> None)
      else if 0xE0 \<le> b0 \<and> b0 \<le> 0xEF then
        (case bs of
           b1 # b2 # r \<Rightarrow>
             if (if b0 = 0xE0 then 0xA0 \<le> b1 \<and> b1 \<le> 0xBF
                 else if b0 = 0xED then 0x80 \<le> b1 \<and> b1 \<le> 0x9F
                 else cont b1) \<and> cont b2
             then map_option
                    ((#) ((b0 - 0xE0) * 4096 + (b1 - 0x80) * 64 + (b2 - 0x80)))
                    (decode_utf8_nat r)
             else None
         | _ \<Rightarrow> None)
      else if 0xF0 \<le> b0 \<and> b0 \<le> 0xF4 then
        (case bs of
           b1 # b2 # b3 # r \<Rightarrow>
             if (if b0 = 0xF0 then 0x90 \<le> b1 \<and> b1 \<le> 0xBF
                 else if b0 = 0xF4 then 0x80 \<le> b1 \<and> b1 \<le> 0x8F
                 else cont b1) \<and> cont b2 \<and> cont b3
             then map_option
                    ((#) ((b0 - 0xF0) * 262144 + (b1 - 0x80) * 4096 + (b2 - 0x80) * 64
                          + (b3 - 0x80)))
                    (decode_utf8_nat r)
             else None
         | _ \<Rightarrow> None)
      else None)"

definition decode_utf8 :: "bytes \<Rightarrow> str option" where
  "decode_utf8 raw = decode_utf8_nat (map unat raw)"

text \<open>The \<open>utf-8-sig\<close> decoder drops one leading byte-order mark, then decodes UTF-8.\<close>

definition decode_utf8_sig :: "bytes \<Rightarrow> str option" where
  "decode_utf8_sig raw =
     (if take 3 raw = [0xEF, 0xBB, 0xBF] then decode_utf8 (drop 3 raw) else decode_utf8 raw)"

definition encode_cp :: "nat \<Rightarrow> nat list option" where
  "encode_cp c =
     (if c < 0x80 then Some [c]
      else if c < 0x800 then Some [0xC0 + c div 64, 0x80 + c mod 64]
      else if c < 0x10000 then
        (if 0xD800 \<le> c \<and> c \<le> 0xDFFF then None
         else Some [0xE0 + c div 4096, 0x80 + (c div 64) mod 64, 0x80 + c mod 64])
      else if c < 0x110000 then
        Some [0xF0 + c div 262144, 0x80 + (c div 4096) mod 64, 0x80 + (c div 64) mod 64,
              0x80 + c mod 64]
      else None)"

fun encode_utf8_nat :: "str \<Rightarrow> nat list option" where
  "encode_utf8_nat [] = Some []"
| "encode_utf8_nat (c # cs) =
     (case encode_cp c of
        None \<Rightarrow> None
      | Some bs \<Rightarrow> map_option ((@) bs) (encode_utf8_nat cs))"

definition encode_utf8 :: "str \<Rightarrow> bytes option" where
  "encode_utf8 s = map_option (map of_nat) (encode_utf8_nat s)"

section \<open>The environment of \<open>process_file\<close> and \<open>main\<close>\<close>

text \<open>The exceptions that can leave \<open>process_file\<close>.\<close>

datatype exn = UnicodeDecodeError | UnicodeEncodeError | LookupError | OtherException

text \<open>
  Python's codec registry is a parameter: \<open>codecs name\<close> is \<open>None\<close> when the platform
  knows no text encoding of that name (then \<open>bytes.decode\<close> raises \<open>LookupError\<close>), and
  otherwise the strict decoder of that encoding, which returns a text or raises.
\<close>

type_synonym codec_registry = "string \<Rightarrow> (bytes \<Rightarrow> exn + str) option"

definition bytes_decode :: "codec_registry \<Rightarrow> bytes \<Rightarrow> string \<Rightarrow> exn + str" where
  "bytes_decode codecs raw enc =
     (case codecs enc of None \<Rightarrow> Inl LookupError | Some dec \<Rightarrow> dec raw)"

text \<open>
  The world the program acts on. \<open>files p\<close> is what \<open>p.read_bytes()\<close> returns
  (\<open>None\<close>: it raises); \<open>write_fails p\<close> is \<open>Some (msg, r)\<close> when \<open>p.write_bytes\<close> raises
  an exception whose message is \<open>msg\<close>: with \<open>r = None\<close> the file could not be opened
  and keeps its bytes, with \<open>r = Some k\<close> it was opened for writing, which truncates it,
  and \<open>k\<close> bytes of the new data reached it before the failure;
  \<open>stdout\<close> and \<open>stderr\<close> collect the printed lines; \<open>git_added\<close> collects the paths
  passed to \<open>git add\<close>; \<open>in_repo\<close> tells whether \<open>git rev-parse --show-toplevel\<close>
  succeeds; \<open>ls_files\<close> and \<open>diff_cached\<close> are the paths the two listing commands print.
\<close>

record world =
  files :: "path \<Rightarrow> bytes option"
  write_fails :: "path \<Rightarrow> (string \<times> nat option) option"
  stdout :: "string list"
  stderr :: "string list"
  git_added :: "path list"
  in_repo :: bool
  ls_files :: "path list"
  diff_cached :: "path list"

section \<open>\<open>process_file\<close>\<close>

text \<open>
  The \<open>try\<close> block that decodes (lines 136 to 147). \<open>Inr None\<close> stands for the two
  \<open>return False\<close> exits, \<open>Inl e\<close> for an exception that is not caught. The test
  \<open>if recode_from:\<close> is false for \<open>None\<close> and for the empty string.
\<close>

definition decode_file :: "codec_registry \<Rightarrow> bytes \<Rightarrow> string option \<Rightarrow> exn + str option" where
  "decode_file codecs raw recode_from =
     (case decode_utf8_sig raw of
        Some decoded \<Rightarrow> Inr (Some decoded)
      | None \<Rightarrow>
          (if recode_from \<noteq> None \<and> recode_from \<noteq> Some []
           then (case bytes_decode codecs raw (the recode_from) of
                   Inr decoded \<Rightarrow> Inr (Some decoded)
                 | Inl UnicodeDecodeError \<Rightarrow> Inr None
                 | Inl e \<Rightarrow> Inl e)
           else Inr None))"

text \<open>
  The world after \<open>path.write_bytes(new_bytes)\<close> has raised and the \<open>except\<close> branch has
  printed its line on the error stream.
\<close>

definition failed_write :: "path \<Rightarrow> bytes \<Rightarrow> string \<Rightarrow> nat option \<Rightarrow> world \<Rightarrow> world" where
  "failed_write p new_bytes msg r w =
     (let w1 = (case r of
                  None \<Rightarrow> w
                | Some k \<Rightarrow> w\<lparr>files := (files w)(p \<mapsto> take k new_bytes)\<rparr>)
      in w1\<lparr>stderr := stderr w1 @ [''ERROR writing '' @ p @ '': '' @ msg]\<rparr>)"

text \<open>The comparison and the write (lines 160 to 174).\<close>

definition write_back :: "path \<Rightarrow> bytes \<Rightarrow> bytes \<Rightarrow> bool \<Rightarrow> bool \<Rightarrow> world \<Rightarrow> (exn + bool) \<times> world" where
  "write_back p raw new_bytes check_only restage w =
     (if new_bytes \<noteq> raw then
        (if check_only then (Inr True, w\<lparr>stdout := stdout w @ [''NEEDS-FIX '' @ p]\<rparr>)
         else
           (case write_fails w p of
              Some (e, r) \<Rightarrow> (Inr False, failed_write p new_bytes e r w)
            | None \<Rightarrow>
                (let w1 = w\<lparr>files := (files w)(p \<mapsto> new_bytes)\<rparr>;
                     w2 = (if restage then w1\<lparr>git_added := git_added w1 @ [p]\<rparr> else w1)
                 in (Inr True, w2\<lparr>stdout := stdout w2 @ [''Fixed '' @ p]\<rparr>))))
      else (Inr False, w))"

definition process_file ::
  "codec_registry \<Rightarrow> path \<Rightarrow> string option \<Rightarrow> bool \<Rightarrow> bool \<Rightarrow> bool \<Rightarrow> world \<Rightarrow> (exn + bool) \<times> world" where
  "process_file codecs p recode_from aggressive_tabs check_only restage w =
     (case files w p of
        None \<Rightarrow> (Inr False, w)
      | Some raw \<Rightarrow>
          if \<not> is_potentially_text p (take 8192 raw) then (Inr False, w)
          else
            (case decode_file codecs raw recode_from of
               Inl e \<Rightarrow> (Inl e, w)
             | Inr None \<Rightarrow> (Inr False, w)
             | Inr (Some decoded) \<Rightarrow>
                 (let keep_tabs = is_makefile_like p;
                      new_text = normalize_text decoded INDENT_SIZE True aggressive_tabs keep_tabs
                  in case encode_utf8 new_text of
                       None \<Rightarrow> (Inl UnicodeEncodeError, w)
                     | Some new_bytes \<Rightarrow> write_back p raw new_bytes check_only restage w)))"

section \<open>\<open>main\<close>\<close>

record args =
  arg_check :: bool
  arg_staged :: bool
  arg_restage :: bool
  arg_recode_from :: "string option"
  arg_aggressive_tabs :: bool

definition list_tracked_files :: "bool \<Rightarrow> world \<Rightarrow> path list" where
  "list_tracked_files staged w = (if staged then diff_cached w else ls_files w)"

text \<open>
  The \<open>for p in files\<close> loop of \<open>main\<close>, with the accumulator \<open>any_changes\<close>. An
  exception raised by \<open>process_file\<close> is not caught and ends the loop.
\<close>

fun run_files :: "codec_registry \<Rightarrow> args \<Rightarrow> path list \<Rightarrow> bool \<Rightarrow> world \<Rightarrow> (exn + bool) \<times> world" where
  "run_files codecs a [] any_changes w = (Inr any_changes, w)"
| "run_files codecs a (p # ps) any_changes w =
     (if prefix ''.git/'' p then run_files codecs a ps any_changes w
      else
        (case process_file codecs p (arg_recode_from a) (arg_aggressive_tabs a) (arg_check a)
                (arg_restage a) w of
           (Inl e, w') \<Rightarrow> (Inl e, w')
         | (Inr changed, w') \<Rightarrow> run_files codecs a ps (any_changes \<or> changed) w'))"

definition main :: "codec_registry \<Rightarrow> args \<Rightarrow> world \<Rightarrow> (exn + int) \<times> world" where
  "main codecs a w =
     (if \<not> in_repo w
      then (Inr 2, w\<lparr>stderr := stderr w @ [''Error: not inside a Git repository.'']\<rparr>)
      else
        (let fs = list_tracked_files (arg_staged a) w
         in if fs = [] then (Inr 0, w)
            else
              (case run_files codecs a fs False w of
                 (Inl e, w') \<Rightarrow> (Inl e, w')
               | (Inr any_changes, w') \<Rightarrow>
                   (if arg_check a \<and> any_changes then (Inr 1, w') else (Inr 0, w')))))"

text \<open>
  \<^verbatim>\<open>raise SystemExit(main())\<close>: the exit status of the process is the value \<open>main\<close>
  returns, and 1 when an exception leaves \<open>main\<close> uncaught.
\<close>

definition exit_status :: "exn + int \<Rightarrow> int" where
  "exit_status r = (case r of Inl e \<Rightarrow> 1 | Inr code \<Rightarrow> code)"

section \<open>Notions used to state the claims\<close>

text \<open>
  Processing continues, as the specification words it: the files are taken one after the
  other, each is handed to \<open>process_file\<close> in the world its predecessors left (paths under
  \<open>.git/\<close> apart), the results are accumulated, and only an exception stops the run.
  \<open>step_file\<close> is one such step on the pair of the accumulated result and the world; the
  whole run is \<open>foldl\<close> of it over the list.
\<close>

definition step_file :: "codec_registry \<Rightarrow> args \<Rightarrow> (exn + bool) \<times> world \<Rightarrow> path \<Rightarrow> (exn + bool) \<times> world" where
  "step_file codecs a st p =
     (case st of
        (Inl e, w) \<Rightarrow> (Inl e, w)
      | (Inr any_changes, w) \<Rightarrow>
          if prefix ''.git/'' p then (Inr any_changes, w)
          else
            (case process_file codecs p (arg_recode_from a) (arg_aggressive_tabs a) (arg_check a)
                    (arg_restage a) w of
               (Inl e, w') \<Rightarrow> (Inl e, w')
             | (Inr changed, w') \<Rightarrow> (Inr (any_changes \<or> changed), w')))"

text \<open>
  The newline unification as the specification words it: one left-to-right pass in which
  every CR-LF pair and every lone CR becomes a single LF.
\<close>

fun unify_spec :: "str \<Rightarrow> str" where
  "unify_spec [] = []"
| "unify_spec [c] = (if c = CR then [LF] else [c])"
| "unify_spec (c # d # cs) =
     (if c = CR \<and> d = LF then LF # unify_spec cs
      else if c = CR then LF # unify_spec (d # cs)
      else c # unify_spec (d # cs))"

text \<open>A line is blank when it consists of spaces and tabs only.\<close>

definition blank :: "str \<Rightarrow> bool" where
  "blank l = list_all (\<lambda>c. c = SP \<or> c = TAB) l"

text \<open>
  The tab conversion of one line written with \<open>takeWhile\<close> and \<open>dropWhile\<close>; lemma
  \<open>normalize_line_alt\<close> shows that \<open>normalize_line\<close>, with its index loop, computes the
  trailing trim of this.
\<close>

definition convert_line :: "int \<Rightarrow> bool \<Rightarrow> bool \<Rightarrow> bool \<Rightarrow> str \<Rightarrow> str" where
  "convert_line n c a k l =
     (if c \<and> \<not> k then
        (if a then replace l [TAB] (spaces n)
         else replace (takeWhile (\<lambda>c. c \<in> {SP, TAB}) l) [TAB] (spaces n)
              @ dropWhile (\<lambda>c. c \<in> {SP, TAB}) l)
      else l)"

text \<open>A text of Unicode scalar values: no surrogate, nothing above U+10FFFF.\<close>

definition scalar_text :: "str \<Rightarrow> bool" where
  "scalar_text t = list_all (\<lambda>c. c < 0xD800 \<or> (0xDFFF < c \<and> c < 0x110000)) t"

text \<open>
  A file needs changes when it is readable, classified as text and decodable, and the
  UTF-8 encoding of its normalized text differs from its bytes.
\<close>

definition needs_fix :: "codec_registry \<Rightarrow> string option \<Rightarrow> bool \<Rightarrow> world \<Rightarrow> path \<Rightarrow> bool" where
  "needs_fix codecs recode_from aggressive_tabs w p =
     (case files w p of
        None \<Rightarrow> False
      | Some raw \<Rightarrow>
          is_potentially_text p (take 8192 raw) \<and>
          (case decode_file codecs raw recode_from of
             Inr (Some decoded) \<Rightarrow>
               (case encode_utf8 (normalize_text decoded INDENT_SIZE True aggressive_tabs
                                    (is_makefile_like p)) of
                  Some new_bytes \<Rightarrow> new_bytes \<noteq> raw
                | None \<Rightarrow> False)
           | _ \<Rightarrow> False))"

text \<open>
  The processing of a file raises when its decoding raises an exception other than
  \<open>UnicodeDecodeError\<close>, or when its normalized text cannot be encoded.
\<close>

definition file_raises :: "codec_registry \<Rightarrow> string option \<Rightarrow> bool \<Rightarrow> world \<Rightarrow> path \<Rightarrow> bool" where
  "file_raises codecs recode_from aggressive_tabs w p =
     (case files w p of
        None \<Rightarrow> False
      | Some raw \<Rightarrow>
          is_potentially_text p (take 8192 raw) \<and>
          (case decode_file codecs raw recode_from of
             Inl e \<Rightarrow> True
           | Inr None \<Rightarrow> False
           | Inr (Some decoded) \<Rightarrow>
               encode_utf8 (normalize_text decoded INDENT_SIZE True aggressive_tabs
                              (is_makefile_like p)) = None))"

text \<open>The three skips of \<open>process_file\<close>: unreadable, binary, undecodable.\<close>

definition skipped :: "codec_registry \<Rightarrow> string option \<Rightarrow> world \<Rightarrow> path \<Rightarrow> bool" where
  "skipped codecs recode_from w p =
     (case files w p of
        None \<Rightarrow> True
      | Some raw \<Rightarrow>
          \<not> is_potentially_text p (take 8192 raw) \<or> decode_file codecs raw recode_from = Inr None)"

section \<open>Example inputs\<close>

text \<open>
  Example inputs for the concrete instances below: the Latin-1 and ASCII decoders, a
  codec registry that knows only these two, a world built from association lists, and
  parsed command-line arguments.
\<close>

definition decode_latin1 :: "bytes \<Rightarrow> exn + str" where
  "decode_latin1 raw = Inr (map unat raw)"

definition decode_ascii :: "bytes \<Rightarrow> exn + str" where
  "decode_ascii raw =
     (if list_all (\<lambda>b. b < 0x80) raw then Inr (map unat raw) else Inl UnicodeDecodeError)"

definition ex_codecs :: codec_registry where
  "ex_codecs name =
     (if name = ''latin-1'' then Some decode_latin1
      else if name = ''ascii'' then Some decode_ascii
      else None)"

definition ex_world ::
  "(path \<times> bytes) list \<Rightarrow> (path \<times> string \<times> nat option) list \<Rightarrow> path list \<Rightarrow> world" where
  "ex_world fs fails tracked =
     \<lparr>files = map_of fs, write_fails = map_of fails, stdout = [], stderr = [], git_added = [],
      in_repo = True, ls_files = tracked, diff_cached = []\<rparr>"

definition ex_args :: "bool \<Rightarrow> bool \<Rightarrow> string option \<Rightarrow> bool \<Rightarrow> args" where
  "ex_args check restage recode_from aggressive =
     \<lparr>arg_check = check, arg_staged = False, arg_restage = restage,
      arg_recode_from = recode_from, arg_aggressive_tabs = aggressive\<rparr>"

section \<open>String primitives: basic facts\<close>

lemma replace_single:
  "replace s [c] new = concat (map (\<lambda>x. if x = c then new else [x]) s)"
  by (induction s) auto

lemma replace_absent: "c \<notin> set s \<Longrightarrow> replace s [c] new = s"
  by (induction s) auto

lemma set_replace_single:
  "set (replace s [c] new) \<subseteq> (set s - {c}) \<union> set new"
  by (auto simp: replace_single split: if_splits)

lemma replace_crlf_absent: "CR \<notin> set s \<Longrightarrow> replace s [CR, LF] [LF] = s"
  by (induction s) auto

lemma unify_eq_spec: "unify_newlines s = unify_spec s"
  unfolding unify_newlines_def
  by (induction s rule: unify_spec.induct) auto

lemma unify_spec_no_cr: "CR \<notin> set (unify_spec s)"
  by (induction s rule: unify_spec.induct) auto

lemma unify_spec_id: "CR \<notin> set s \<Longrightarrow> unify_spec s = s"
  by (induction s rule: unify_spec.induct) auto

lemma split_on_nonempty: "split_on sep s \<noteq> []"
  by (induction s) (auto split: list.splits)

lemma split_on_no_sep: "l \<in> set (split_on sep s) \<Longrightarrow> sep \<notin> set l"
  by (induction s arbitrary: l) (auto split: list.splits if_splits)


lemma join_split: "join [sep] (split_on sep s) = s"
proof (induction s)
  case Nil
  show ?case by simp
next
  case (Cons c cs)
  obtain l ls where sp: "split_on sep cs = l # ls"
    using split_on_nonempty [of sep cs] by (cases "split_on sep cs") auto
  show ?case using Cons sp by (cases ls) auto
qed

lemma split_join:
  "ls \<noteq> [] \<Longrightarrow> \<forall>l \<in> set ls. sep \<notin> set l \<Longrightarrow> split_on sep (join [sep] ls) = ls"
proof (induction "[sep]" ls rule: join.induct)
  case 1 then show ?case by simp
next
  case (2 x)
  then have "sep \<notin> set x" by simp
  then show ?case by (induction x) auto
next
  case (3 x y ys)
  then have ih: "split_on sep (join [sep] (y # ys)) = y # ys" by simp
  from 3 have "sep \<notin> set x" by simp
  then have "split_on sep (x @ sep # join [sep] (y # ys)) = x # y # ys"
    using ih by (induction x) auto
  then show ?case by simp
qed

lemma leading_ws_eq:
  "i \<le> length line \<Longrightarrow>
   leading_ws line i = i + length (takeWhile (\<lambda>c. c \<in> {SP, TAB}) (drop i line))"
proof (induction line i rule: leading_ws.induct)
  case (1 line i)
  show ?case
  proof (cases "i < length line \<and> line ! i \<in> {SP, TAB}")
    case True
    then have d: "drop i line = line ! i # drop (Suc i) line"
      by (simp add: Cons_nth_drop_Suc)
    have "leading_ws line i = leading_ws line (i + 1)"
      using True by (subst leading_ws.simps) simp
    also have "\<dots> = (i + 1) + length (takeWhile (\<lambda>c. c \<in> {SP, TAB}) (drop (i + 1) line))"
      using 1 True by simp
    finally show ?thesis using True d by simp
  next
    case False
    have l: "leading_ws line i = i" using False by (subst leading_ws.simps) auto
    show ?thesis
    proof (cases "i < length line")
      case True
      then have d: "drop i line = line ! i # drop (Suc i) line"
        by (simp add: Cons_nth_drop_Suc)
      with False True l show ?thesis by simp
    next
      case False
      with 1(2) l show ?thesis by simp
    qed
  qed
qed

lemma leading_ws_0: "leading_ws line 0 = length (takeWhile (\<lambda>c. c \<in> {SP, TAB}) line)"
  using leading_ws_eq [of 0 line] by simp

section \<open>One line\<close>

lemma rstrip_idem: "rstrip (rstrip l cs) cs = rstrip l cs"
  by (simp add: rstrip_def)

lemma rstrip_subset: "set (rstrip l cs) \<subseteq> set l"
  using set_dropWhileD [of _ "\<lambda>c. c \<in> set cs" "rev l"] by (auto simp: rstrip_def)

lemma rstrip_nil_iff: "rstrip l cs = [] \<longleftrightarrow> set l \<subseteq> set cs"
  by (auto simp: rstrip_def dropWhile_eq_Nil_conv)

lemma rstrip_nil [simp]: "rstrip [] cs = []"
  by (simp add: rstrip_def)

lemma rstrip_append:
  assumes "\<not> set r \<subseteq> set cs"
  shows "rstrip (a @ r) cs = a @ rstrip r cs"
proof -
  from assms obtain x where "x \<in> set (rev r)" "\<not> x \<in> set cs" by auto
  then have "dropWhile (\<lambda>c. c \<in> set cs) (rev r @ rev a) = dropWhile (\<lambda>c. c \<in> set cs) (rev r) @ rev a"
    by (intro dropWhile_append1) auto
  then show ?thesis by (simp add: rstrip_def)
qed

lemma rstrip_prefix: "\<exists>t. l = rstrip l cs @ t \<and> set t \<subseteq> set cs"
proof -
  have "rev l = takeWhile (\<lambda>c. c \<in> set cs) (rev l) @ dropWhile (\<lambda>c. c \<in> set cs) (rev l)"
    by simp
  then have "l = rev (dropWhile (\<lambda>c. c \<in> set cs) (rev l)) @ rev (takeWhile (\<lambda>c. c \<in> set cs) (rev l))"
    by (metis rev_append rev_rev_ident)
  moreover have "set (rev (takeWhile (\<lambda>c. c \<in> set cs) (rev l))) \<subseteq> set cs"
    using set_takeWhileD [of _ "\<lambda>c. c \<in> set cs" "rev l"] by auto
  ultimately show ?thesis unfolding rstrip_def by blast
qed

lemma rstrip_hd:
  assumes "r \<noteq> []" "hd r \<notin> set cs"
  shows "rstrip r cs \<noteq> [] \<and> hd (rstrip r cs) = hd r"
proof -
  obtain t where t: "r = rstrip r cs @ t" "set t \<subseteq> set cs" using rstrip_prefix by blast
  have ne: "rstrip r cs \<noteq> []"
  proof
    assume "rstrip r cs = []"
    with t have "set r \<subseteq> set cs" by simp
    with assms show False by (cases r) auto
  qed
  then have "hd r = hd (rstrip r cs)" using t by (metis hd_append2)
  with ne show ?thesis by simp
qed


lemma normalize_line_alt:
  "normalize_line n c a k l = rstrip (convert_line n c a k l) [SP, TAB]"
  by (simp add: normalize_line_def convert_line_def leading_ws_0 Let_def
      takeWhile_eq_take [symmetric] dropWhile_eq_drop [symmetric])

lemma tab_notin_spaces: "TAB \<notin> set (spaces n)"
  by (simp add: spaces_def)

lemma set_spaces: "set (spaces n) \<subseteq> {SP}"
  by (auto simp: spaces_def)

lemma replace_tab_no_tab: "TAB \<notin> set (replace l [TAB] (spaces n))"
  using set_replace_single [of l TAB "spaces n"] tab_notin_spaces [of n] by auto

lemma replace_tab_set: "set (replace l [TAB] (spaces n)) \<subseteq> set l \<union> {SP}"
  using set_replace_single [of l TAB "spaces n"] set_spaces [of n] by auto

lemma replace_tab_ws:
  "set l \<subseteq> {SP, TAB} \<Longrightarrow> set (replace l [TAB] (spaces n)) \<subseteq> {SP}"
  using set_replace_single [of l TAB "spaces n"] set_spaces [of n] by auto

lemma convert_line_set: "set (convert_line n c a k l) \<subseteq> set l \<union> {SP}"
proof -
  have "set (takeWhile (\<lambda>c. c \<in> {SP, TAB}) l) \<subseteq> set l"
    using set_takeWhileD by fastforce
  moreover have "set (dropWhile (\<lambda>c. c \<in> {SP, TAB}) l) \<subseteq> set l"
    using set_dropWhileD by fastforce
  ultimately show ?thesis
    using replace_tab_set [of l n] replace_tab_set [of "takeWhile (\<lambda>c. c \<in> {SP, TAB}) l" n]
    unfolding convert_line_def by auto
qed

lemma normalize_line_set: "set (normalize_line n c a k l) \<subseteq> set l \<union> {SP}"
  using rstrip_subset [of "convert_line n c a k l" "[SP, TAB]"] convert_line_set [of n c a k l]
  unfolding normalize_line_alt by blast

lemma normalize_line_nil [simp]: "normalize_line n c a k [] = []"
  by (simp add: normalize_line_alt convert_line_def)

lemma convert_line_blank: "set (convert_line n c a k l) \<subseteq> {SP, TAB} \<longleftrightarrow> set l \<subseteq> {SP, TAB}"
proof (cases "c \<and> \<not> k")
  case False
  then show ?thesis by (auto simp: convert_line_def)
next
  case ck: True
  show ?thesis
  proof (cases a)
    case True
    have "set (replace l [TAB] (spaces n)) \<subseteq> {SP, TAB} \<longleftrightarrow> set l \<subseteq> {SP, TAB}"
      by (induction l) (auto simp: spaces_def)
    with ck True show ?thesis by (simp add: convert_line_def)
  next
    case False
    let ?p = "\<lambda>c. c \<in> {SP, TAB}"
    have 1: "set (replace (takeWhile ?p l) [TAB] (spaces n)) \<subseteq> {SP, TAB}"
      using replace_tab_ws [of "takeWhile ?p l" n] set_takeWhileD [of _ ?p l] by blast
    have 2: "set (dropWhile ?p l) \<subseteq> {SP, TAB} \<longleftrightarrow> set l \<subseteq> {SP, TAB}"
    proof
      assume a: "set (dropWhile ?p l) \<subseteq> {SP, TAB}"
      have "dropWhile ?p l = []"
      proof (rule ccontr)
        assume "dropWhile ?p l \<noteq> []"
        then have "\<not> ?p (hd (dropWhile ?p l))" by (rule hd_dropWhile)
        moreover have "hd (dropWhile ?p l) \<in> set (dropWhile ?p l)"
          using \<open>dropWhile ?p l \<noteq> []\<close> by simp
        ultimately show False using a by blast
      qed
      then show "set l \<subseteq> {SP, TAB}" by (auto simp: dropWhile_eq_Nil_conv)
    next
      assume "set l \<subseteq> {SP, TAB}"
      then show "set (dropWhile ?p l) \<subseteq> {SP, TAB}" using set_dropWhileD [of _ ?p l] by blast
    qed
    from ck False 1 2 show ?thesis by (auto simp: convert_line_def)
  qed
qed

lemma normalize_line_nil_iff: "normalize_line n c a k l = [] \<longleftrightarrow> blank l"
proof -
  have "blank l \<longleftrightarrow> set l \<subseteq> {SP, TAB}" by (auto simp: blank_def list_all_iff)
  then show ?thesis
    using convert_line_blank [of n c a k l]
    by (simp add: normalize_line_alt rstrip_nil_iff)
qed

lemma normalize_line_idem:
  "normalize_line n c a k (normalize_line n c a k l) = normalize_line n c a k l"
proof (cases "c \<and> \<not> k")
  case False
  then show ?thesis by (auto simp: normalize_line_alt convert_line_def rstrip_idem)
next
  case ck: True
  show ?thesis
  proof (cases a)
    case True
    let ?o = "rstrip (replace l [TAB] (spaces n)) [SP, TAB]"
    have "TAB \<notin> set ?o"
      using rstrip_subset [of "replace l [TAB] (spaces n)" "[SP, TAB]"] replace_tab_no_tab [of l n]
      by blast
    then have "replace ?o [TAB] (spaces n) = ?o" by (rule replace_absent)
    with ck True show ?thesis by (simp add: normalize_line_alt convert_line_def rstrip_idem)
  next
    case False
    let ?p = "\<lambda>c. c \<in> {SP, TAB}"
    let ?lead = "replace (takeWhile ?p l) [TAB] (spaces n)"
    let ?rest = "dropWhile ?p l"
    have nl: "normalize_line n c a k x =
        rstrip (replace (takeWhile ?p x) [TAB] (spaces n) @ dropWhile ?p x) [SP, TAB]" for x
      using ck False by (simp add: normalize_line_alt convert_line_def)
    have lead_sp: "set ?lead \<subseteq> {SP}"
      using replace_tab_ws [of "takeWhile ?p l" n] set_takeWhileD [of _ ?p l] by blast
    show ?thesis
    proof (cases "?rest = []")
      case True
      have "set (?lead @ ?rest) \<subseteq> set [SP, TAB]" unfolding True using lead_sp by auto
      then have "normalize_line n c a k l = []"
        unfolding nl rstrip_nil_iff [symmetric] .
      then show ?thesis by simp
    next
      case ne: False
      then have h: "\<not> ?p (hd ?rest)" by (rule hd_dropWhile)
      then have nsub: "\<not> set ?rest \<subseteq> set [SP, TAB]" using ne by (cases ?rest) auto
      let ?r = "rstrip ?rest [SP, TAB]"
      have o: "normalize_line n c a k l = ?lead @ ?r"
        unfolding nl using nsub by (rule rstrip_append)
      have r: "?r \<noteq> []" "hd ?r = hd ?rest"
        using rstrip_hd [of ?rest "[SP, TAB]"] ne h by auto
      then obtain x xs where rx: "?r = x # xs" "\<not> ?p x" using h by (cases ?r) auto
      have tw: "takeWhile ?p (?lead @ ?r) = ?lead"
        using lead_sp rx by (subst takeWhile_append2) auto
      have dw: "dropWhile ?p (?lead @ ?r) = ?r"
        using lead_sp rx by (subst dropWhile_append2) auto
      have "TAB \<notin> set ?lead" using lead_sp by auto
      then have rl: "replace ?lead [TAB] (spaces n) = ?lead" by (rule replace_absent)
      have nsub2: "\<not> set ?r \<subseteq> set [SP, TAB]" using rx by auto
      have "normalize_line n c a k (?lead @ ?r) = rstrip (?lead @ ?r) [SP, TAB]"
        unfolding nl [of "?lead @ ?r"] tw dw rl ..
      also have "\<dots> = ?lead @ rstrip ?r [SP, TAB]" using nsub2 by (rule rstrip_append)
      also have "\<dots> = ?lead @ ?r" by (simp only: rstrip_idem)
      finally show ?thesis unfolding o .
    qed
  qed
qed

section \<open>Joining and splitting lines\<close>

lemma join_snoc: "ls \<noteq> [] \<Longrightarrow> join sep (ls @ [x]) = join sep ls @ sep @ x"
  by (induction sep ls rule: join.induct) auto

lemma endswith_single: "endswith s [c] \<longleftrightarrow> s \<noteq> [] \<and> last s = c"
  by (cases s rule: rev_cases) (auto simp: endswith_def)

lemma endswith_snoc2: "endswith (s @ [c]) [d, c] \<longleftrightarrow> endswith s [d]"
  by (cases s rule: rev_cases) (auto simp: endswith_def suffix_def)

lemma endswith_join:
  assumes "ls \<noteq> []" "\<forall>l \<in> set ls. LF \<notin> set l"
  shows "endswith (join [LF] ls) [LF] \<longleftrightarrow> 2 \<le> length ls \<and> last ls = []"
proof -
  obtain bs x where ls: "ls = bs @ [x]" using assms(1) by (cases ls rule: rev_cases) auto
  have x: "LF \<notin> set x" using assms(2) ls by simp
  show ?thesis
  proof (cases "bs = []")
    case True
    have "\<not> endswith x [LF]"
      using x by (cases x rule: rev_cases) (auto simp: endswith_single)
    with True ls show ?thesis by simp
  next
    case False
    then have j: "join [LF] ls = join [LF] bs @ LF # x" by (simp add: ls join_snoc)
    have "endswith (join [LF] bs @ LF # x) [LF] \<longleftrightarrow> x = []"
      using x by (cases x rule: rev_cases) (auto simp: endswith_single)
    moreover have "2 \<le> length ls" using False ls by (cases bs) auto
    ultimately show ?thesis using j ls by simp
  qed
qed

lemma set_join: "set (join sep ls) \<subseteq> \<Union> (set ` set ls) \<union> set sep"
  by (induction sep ls rule: join.induct) auto

section \<open>The whole text\<close>

lemma unify_newlines_no_cr: "CR \<notin> set (unify_newlines s)"
  by (simp add: unify_eq_spec unify_spec_no_cr)

lemma unify_newlines_id: "CR \<notin> set s \<Longrightarrow> unify_newlines s = s"
  by (simp add: unify_eq_spec unify_spec_id)

lemma set_split_on: "l \<in> set (split_on sep s) \<Longrightarrow> set l \<subseteq> set s"
proof (induction s arbitrary: l)
  case Nil
  then show ?case by simp
next
  case (Cons c cs)
  obtain x xs where sp: "split_on sep cs = x # xs"
    using split_on_nonempty [of sep cs] by (cases "split_on sep cs") auto
  have "set x \<subseteq> set cs" using Cons.IH [of x] sp by simp
  moreover have "\<And>y. y \<in> set xs \<Longrightarrow> set y \<subseteq> set cs" using Cons.IH sp by simp
  ultimately show ?case using Cons.prems sp by (auto split: if_splits)
qed

lemma normalize_text_alt:
  "normalize_text s n c a k =
     join [LF] (map (normalize_line n c a k) (split_on LF (unify_newlines s)))
     @ (if endswith (join [LF] (map (normalize_line n c a k) (split_on LF (unify_newlines s)))) [LF]
        then [] else [LF])"
  by (simp add: normalize_text_def Let_def)

lemma out_lines_props:
  assumes "out = map (normalize_line n c a k) (split_on LF (unify_newlines s))"
  shows "out \<noteq> []" "\<forall>l \<in> set out. LF \<notin> set l" "\<forall>l \<in> set out. CR \<notin> set l"
proof -
  show "out \<noteq> []" using assms split_on_nonempty by simp
  show "\<forall>l \<in> set out. LF \<notin> set l"
  proof
    fix l assume "l \<in> set out"
    then obtain l0 where l0: "l0 \<in> set (split_on LF (unify_newlines s))" "l = normalize_line n c a k l0"
      using assms by auto
    then have "LF \<notin> set l0" using split_on_no_sep by blast
    then show "LF \<notin> set l" using normalize_line_set [of n c a k l0] l0 by auto
  qed
  show "\<forall>l \<in> set out. CR \<notin> set l"
  proof
    fix l assume "l \<in> set out"
    then obtain l0 where l0: "l0 \<in> set (split_on LF (unify_newlines s))" "l = normalize_line n c a k l0"
      using assms by auto
    then have "CR \<notin> set l0" using set_split_on [of l0 LF "unify_newlines s"] unify_newlines_no_cr [of s] by blast
    then show "CR \<notin> set l" using normalize_line_set [of n c a k l0] l0 by auto
  qed
qed

lemma normalize_text_join:
  "\<exists>ls. ls \<noteq> [] \<and> (\<forall>l \<in> set ls. LF \<notin> set l \<and> CR \<notin> set l)
     \<and> map (normalize_line n c a k) ls = ls \<and> last ls = [] \<and> 2 \<le> length ls
     \<and> normalize_text s n c a k = join [LF] ls"
proof -
  define out where "out = map (normalize_line n c a k) (split_on LF (unify_newlines s))"
  note p = out_lines_props [OF out_def]
  have idem: "map (normalize_line n c a k) out = out"
    by (simp add: out_def normalize_line_idem)
  show ?thesis
  proof (cases "endswith (join [LF] out) [LF]")
    case True
    then have "2 \<le> length out \<and> last out = []" using endswith_join [OF p(1) p(2)] by simp
    moreover have "normalize_text s n c a k = join [LF] out"
      using True by (simp add: normalize_text_alt out_def)
    ultimately show ?thesis using p idem by blast
  next
    case False
    have "normalize_text s n c a k = join [LF] out @ [LF]"
      using False by (simp add: normalize_text_alt out_def)
    then have "normalize_text s n c a k = join [LF] (out @ [[]])"
      using p(1) by (simp add: join_snoc)
    moreover have "map (normalize_line n c a k) (out @ [[]]) = out @ [[]]" using idem by simp
    moreover have "2 \<le> length (out @ [[]])" using p(1) by (cases out) auto
    ultimately show ?thesis using p by (intro exI [of _ "out @ [[]]"]) auto
  qed
qed

lemma normalize_text_idem:
  "normalize_text (normalize_text s n c a k) n c a k = normalize_text s n c a k"
proof -
  obtain ls where ls: "ls \<noteq> []" "\<forall>l \<in> set ls. LF \<notin> set l \<and> CR \<notin> set l"
      "map (normalize_line n c a k) ls = ls" "last ls = []" "2 \<le> length ls"
      "normalize_text s n c a k = join [LF] ls"
    using normalize_text_join by blast
  have "CR \<notin> set (join [LF] ls)" using set_join [of "[LF]" ls] ls(2) by auto
  then have u: "unify_newlines (join [LF] ls) = join [LF] ls" by (rule unify_newlines_id)
  have sp: "split_on LF (join [LF] ls) = ls" using ls(1,2) by (intro split_join) auto
  have e: "endswith (join [LF] ls) [LF]" using endswith_join [of ls] ls by simp
  show ?thesis
    unfolding ls(6) by (simp add: normalize_text_alt u sp ls(3) e)
qed

lemma normalize_text_no_cr: "CR \<notin> set (normalize_text s n c a k)"
proof -
  obtain ls where ls: "\<forall>l \<in> set ls. LF \<notin> set l \<and> CR \<notin> set l"
      "normalize_text s n c a k = join [LF] ls"
    using normalize_text_join by blast
  show ?thesis using set_join [of "[LF]" ls] ls by auto
qed

lemma normalize_text_shape:
  fixes s n c a k
  defines "ls \<equiv> split_on LF (unify_newlines s)"
  shows "normalize_text s n c a k =
           join [LF] (map (normalize_line n c a k) ls)
           @ (if 2 \<le> length ls \<and> blank (last ls) then [] else [LF])"
proof -
  define out where "out = map (normalize_line n c a k) ls"
  have p: "out \<noteq> []" "\<forall>l \<in> set out. LF \<notin> set l"
    using out_lines_props [of out n c a k s] by (simp_all add: out_def ls_def)
  have lsne: "ls \<noteq> []" by (simp add: ls_def split_on_nonempty)
  have "last out = normalize_line n c a k (last ls)" using lsne by (simp add: out_def last_map)
  then have "endswith (join [LF] out) [LF] \<longleftrightarrow> 2 \<le> length ls \<and> blank (last ls)"
    using endswith_join [OF p] by (simp add: normalize_line_nil_iff out_def)
  then show ?thesis by (simp add: normalize_text_alt out_def ls_def)
qed

lemma normalize_text_two_lf:
  fixes s n c a k
  defines "ls \<equiv> split_on LF (unify_newlines s)"
  shows "endswith (normalize_text s n c a k) [LF, LF] \<longleftrightarrow>
           3 \<le> length ls \<and> blank (last ls) \<and> blank (last (butlast ls))"
proof -
  define out where "out = map (normalize_line n c a k) ls"
  have p: "out \<noteq> []" "\<forall>l \<in> set out. LF \<notin> set l"
    using out_lines_props [of out n c a k s] by (simp_all add: out_def ls_def)
  have lsne: "ls \<noteq> []" by (simp add: ls_def split_on_nonempty)
  have sh: "normalize_text s n c a k =
      join [LF] out @ (if 2 \<le> length ls \<and> blank (last ls) then [] else [LF])"
    using normalize_text_shape [of s n c a k] by (simp add: out_def ls_def)
  have lo: "last out = [] \<longleftrightarrow> blank (last ls)"
    using lsne by (simp add: out_def last_map normalize_line_nil_iff)
  have e: "endswith (join [LF] out) [LF] \<longleftrightarrow> 2 \<le> length ls \<and> blank (last ls)"
    using endswith_join [OF p] lo by (simp add: out_def)
  show ?thesis
  proof (cases "2 \<le> length ls \<and> blank (last ls)")
    case False
    then have "normalize_text s n c a k = join [LF] out @ [LF]" using sh by simp
    then have "endswith (normalize_text s n c a k) [LF, LF] \<longleftrightarrow> endswith (join [LF] out) [LF]"
      by (simp add: endswith_snoc2)
    with e False show ?thesis by auto
  next
    case True
    then have n: "normalize_text s n c a k = join [LF] out" using sh by simp
    from True lo have lo2: "last out = []" by simp
    define bs where "bs = butlast out"
    have out_bs: "out = bs @ [[]]" using p(1) lo2 unfolding bs_def by (metis append_butlast_last_id)
    have bsne: "bs \<noteq> []" using True out_bs by (auto simp: out_def)
    have bs_nl: "\<forall>l \<in> set bs. LF \<notin> set l" using p(2) out_bs by auto
    have j: "join [LF] out = join [LF] bs @ [LF]" using bsne out_bs by (simp add: join_snoc)
    have bl: "butlast ls \<noteq> []" using True by (cases ls rule: rev_cases) auto
    have bs_map: "bs = map (normalize_line n c a k) (butlast ls)"
      by (simp add: bs_def out_def map_butlast)
    have "endswith (normalize_text s n c a k) [LF, LF] \<longleftrightarrow> endswith (join [LF] bs) [LF]"
      by (simp add: n j endswith_snoc2)
    also have "\<dots> \<longleftrightarrow> 2 \<le> length bs \<and> last bs = []" using endswith_join [OF bsne bs_nl] .
    also have "\<dots> \<longleftrightarrow> 3 \<le> length ls \<and> blank (last (butlast ls))"
      using bl by (auto simp: bs_map last_map normalize_line_nil_iff)
    finally show ?thesis using True by auto
  qed
qed

lemma normalize_text_last: "normalize_text s n c a k \<noteq> [] \<and> last (normalize_text s n c a k) = LF"
proof -
  obtain ls where ls: "ls \<noteq> []" "\<forall>l \<in> set ls. LF \<notin> set l \<and> CR \<notin> set l"
      "last ls = []" "2 \<le> length ls" "normalize_text s n c a k = join [LF] ls"
    using normalize_text_join by blast
  have "endswith (join [LF] ls) [LF]" using endswith_join [of ls] ls by simp
  then show ?thesis unfolding ls(5) endswith_single .
qed

section \<open>UTF-8: encoding then decoding\<close>

lemma div_bounds:
  fixes c :: nat
  shows "c < k * m \<Longrightarrow> c div k < m" and "k * m \<le> c \<Longrightarrow> 0 < k \<Longrightarrow> m \<le> c div k"
   apply (simp add: less_mult_imp_div_less mult.commute)
  by (metis div_le_mono nonzero_mult_div_cancel_left less_numeral_extra(3))

lemma enc1:
  assumes "c < 0x80"
  shows "decode_utf8_nat ([c] @ rest) = map_option ((#) c) (decode_utf8_nat rest)"
  using assms by simp

lemma enc2:
  assumes "0x80 \<le> c" "c < 0x800"
  shows "decode_utf8_nat ([0xC0 + c div 64, 0x80 + c mod 64] @ rest)
         = map_option ((#) c) (decode_utf8_nat rest)"
proof -
  have d: "c div 64 < 32" "2 \<le> c div 64"
    using assms div_bounds(1) [of c 64 32] div_bounds(2) [of 64 2 c] by simp_all
  have m: "c mod 64 < 64" by simp
  have 1: "\<not> 0xC0 + c div 64 < 0x80" by simp
  have 2: "0xC2 \<le> 0xC0 + c div 64 \<and> 0xC0 + c div 64 \<le> 0xDF" using d by simp
  have 3: "cont (0x80 + c mod 64)" unfolding cont_def using m by simp
  have 4: "(0xC0 + c div 64 - 0xC0) * 64 + (0x80 + c mod 64 - 0x80) = c" by simp
  show ?thesis using 1 2 3 4 by simp
qed

lemma enc3:
  assumes "0x800 \<le> c" "c < 0x10000" "\<not> (0xD800 \<le> c \<and> c \<le> 0xDFFF)"
  shows "decode_utf8_nat ([0xE0 + c div 4096, 0x80 + (c div 64) mod 64, 0x80 + c mod 64] @ rest)
         = map_option ((#) c) (decode_utf8_nat rest)"
proof -
  define q where "q = c div 64"
  define h where "h = q div 64"
  define r where "r = q mod 64"
  define r0 where "r0 = c mod 64"
  have cq: "c = q * 64 + r0" by (simp add: q_def r0_def)
  have qh: "q = h * 64 + r" by (simp add: h_def r_def)
  have hc: "c div 4096 = h" unfolding h_def q_def by (simp add: div_mult2_eq)
  have r: "r < 64" "r0 < 64" by (simp_all add: r_def r0_def)
  have hb: "h < 16" using assms(2) cq qh r by linarith
  define b0 where "b0 = 0xE0 + h"
  define b1 where "b1 = 0x80 + r"
  define b2 where "b2 = 0x80 + r0"
  have 1: "\<not> b0 < 0x80" "\<not> (0xC2 \<le> b0 \<and> b0 \<le> 0xDF)" "0xE0 \<le> b0 \<and> b0 \<le> 0xEF"
    using hb unfolding b0_def by simp_all
  have 2: "cont b1" "cont b2" unfolding cont_def b1_def b2_def using r by simp_all
  have 3: "b0 = 0xE0 \<Longrightarrow> 0xA0 \<le> b1 \<and> b1 \<le> 0xBF"
  proof -
    assume "b0 = 0xE0"
    then have "h = 0" by (simp add: b0_def)
    then have "32 \<le> r" using assms(1) cq qh r by linarith
    then show ?thesis using r by (simp add: b1_def)
  qed
  have 4: "b0 = 0xED \<Longrightarrow> 0x80 \<le> b1 \<and> b1 \<le> 0x9F"
  proof -
    assume "b0 = 0xED"
    then have "h = 13" by (simp add: b0_def)
    then have "r < 32" using assms(3) cq qh r by linarith
    then show ?thesis by (simp add: b1_def)
  qed
  have 5: "(b0 - 0xE0) * 4096 + (b1 - 0x80) * 64 + (b2 - 0x80) = c"
    unfolding b0_def b1_def b2_def using cq qh by simp
  have "decode_utf8_nat ([b0, b1, b2] @ rest) = map_option ((#) c) (decode_utf8_nat rest)"
    using 1 2 3 4 5 by simp
  then show ?thesis unfolding b0_def b1_def b2_def hc q_def r_def r0_def h_def
    by (simp add: div_mult2_eq)
qed

lemma enc4:
  assumes "0x10000 \<le> c" "c < 0x110000"
  shows "decode_utf8_nat ([0xF0 + c div 262144, 0x80 + (c div 4096) mod 64,
                           0x80 + (c div 64) mod 64, 0x80 + c mod 64] @ rest)
         = map_option ((#) c) (decode_utf8_nat rest)"
proof -
  define q where "q = c div 64"
  define p where "p = q div 64"
  define h where "h = p div 64"
  define r2 where "r2 = p mod 64"
  define r1 where "r1 = q mod 64"
  define r0 where "r0 = c mod 64"
  have cq: "c = q * 64 + r0" by (simp add: q_def r0_def)
  have qp: "q = p * 64 + r1" by (simp add: p_def r1_def)
  have ph: "p = h * 64 + r2" by (simp add: h_def r2_def)
  have pc: "c div 4096 = p" unfolding p_def q_def by (simp add: div_mult2_eq)
  have hc: "c div 262144 = h" unfolding h_def p_def q_def by (simp add: div_mult2_eq)
  have r: "r2 < 64" "r1 < 64" "r0 < 64" by (simp_all add: r2_def r1_def r0_def)
  have hb: "h \<le> 4" using assms(2) cq qp ph r by linarith
  define b0 where "b0 = 0xF0 + h"
  define b1 where "b1 = 0x80 + r2"
  define b2 where "b2 = 0x80 + r1"
  define b3 where "b3 = 0x80 + r0"
  have 1: "\<not> b0 < 0x80" "\<not> (0xC2 \<le> b0 \<and> b0 \<le> 0xDF)" "\<not> (0xE0 \<le> b0 \<and> b0 \<le> 0xEF)"
    "0xF0 \<le> b0 \<and> b0 \<le> 0xF4"
    using hb unfolding b0_def by simp_all
  have 2: "cont b1" "cont b2" "cont b3" unfolding cont_def b1_def b2_def b3_def using r by simp_all
  have 3: "b0 = 0xF0 \<Longrightarrow> 0x90 \<le> b1 \<and> b1 \<le> 0xBF"
  proof -
    assume "b0 = 0xF0"
    then have "h = 0" by (simp add: b0_def)
    then have "16 \<le> r2" using assms(1) cq qp ph r by linarith
    then show ?thesis using r by (simp add: b1_def)
  qed
  have 4: "b0 = 0xF4 \<Longrightarrow> 0x80 \<le> b1 \<and> b1 \<le> 0x8F"
  proof -
    assume "b0 = 0xF4"
    then have "h = 4" by (simp add: b0_def)
    then have "r2 < 16" using assms(2) cq qp ph r by linarith
    then show ?thesis by (simp add: b1_def)
  qed
  have 5: "(b0 - 0xF0) * 262144 + (b1 - 0x80) * 4096 + (b2 - 0x80) * 64 + (b3 - 0x80) = c"
    unfolding b0_def b1_def b2_def b3_def using cq qp ph by simp
  have "decode_utf8_nat ([b0, b1, b2, b3] @ rest) = map_option ((#) c) (decode_utf8_nat rest)"
    using 1 2 3 4 5 by simp
  then show ?thesis unfolding b0_def b1_def b2_def b3_def
    by (simp add: hc [symmetric] pc [symmetric] r2_def r1_def r0_def p_def q_def div_mult2_eq)
qed

lemma encode_cp_cases:
  assumes "encode_cp c = Some bs"
  obtains (one) "c < 0x80" "bs = [c]"
  | (two) "0x80 \<le> c" "c < 0x800" "bs = [0xC0 + c div 64, 0x80 + c mod 64]"
  | (three) "0x800 \<le> c" "c < 0x10000" "\<not> (0xD800 \<le> c \<and> c \<le> 0xDFFF)"
      "bs = [0xE0 + c div 4096, 0x80 + (c div 64) mod 64, 0x80 + c mod 64]"
  | (four) "0x10000 \<le> c" "c < 0x110000"
      "bs = [0xF0 + c div 262144, 0x80 + (c div 4096) mod 64, 0x80 + (c div 64) mod 64,
             0x80 + c mod 64]"
  using assms unfolding encode_cp_def by (auto split: if_splits)

lemma encode_cp_decode:
  assumes "encode_cp c = Some bs"
  shows "decode_utf8_nat (bs @ rest) = map_option ((#) c) (decode_utf8_nat rest)"
  using assms
proof (cases rule: encode_cp_cases)
  case one then show ?thesis using enc1 by simp
next
  case two then show ?thesis using enc2 [of c rest] by simp
next
  case three then show ?thesis using enc3 [of c rest] by simp
next
  case four then show ?thesis using enc4 [of c rest] by simp
qed

lemma encode_decode_nat: "encode_utf8_nat t = Some bs \<Longrightarrow> decode_utf8_nat bs = Some t"
proof (induction t arbitrary: bs)
  case Nil
  then show ?case by simp
next
  case (Cons c t)
  from Cons.prems obtain bc bt where b: "encode_cp c = Some bc" "encode_utf8_nat t = Some bt"
      "bs = bc @ bt"
    by (auto split: option.splits)
  show ?case unfolding b(3) encode_cp_decode [OF b(1)] using Cons.IH [OF b(2)] by simp
qed

lemma mod64_lt: "x mod 64 < (128::nat)"
  by (rule less_trans [OF mod_less_divisor]) simp_all

lemma encode_cp_byte:
  assumes "encode_cp c = Some bs"
  shows "\<forall>b \<in> set bs. b < 256"
  using assms
proof (cases rule: encode_cp_cases)
  case one then show ?thesis by simp
next
  case two
  have "c div 64 < 32" using two(2) div_bounds(1) [of c 64 32] by simp
  then show ?thesis using two(3) by (simp add: mod64_lt)
next
  case three
  have "c div 4096 < 16" using three(2) div_bounds(1) [of c 4096 16] by simp
  then show ?thesis using three(4) by (simp add: mod64_lt)
next
  case four
  have "c div 262144 < 5" using four(2) div_bounds(1) [of c 262144 5] by simp
  then show ?thesis using four(3) by (simp add: mod64_lt)
qed

lemma encode_nat_bytes: "encode_utf8_nat t = Some bs \<Longrightarrow> \<forall>b \<in> set bs. b < 256"
proof (induction t arbitrary: bs)
  case Nil
  then show ?case by simp
next
  case (Cons c t)
  from Cons.prems obtain bc bt where b: "encode_cp c = Some bc" "encode_utf8_nat t = Some bt"
      "bs = bc @ bt"
    by (auto split: option.splits)
  show ?case unfolding b(3) using encode_cp_byte [OF b(1)] Cons.IH [OF b(2)] by auto
qed

lemma unat_of_nat_byte: "b < 256 \<Longrightarrow> unat (of_nat b :: 8 word) = b"
  by (simp add: unat_of_nat)

lemma map_unat_of_nat:
  "\<forall>b \<in> set bs. b < 256 \<Longrightarrow> map unat (map of_nat bs :: 8 word list) = bs"
  by (induction bs) (simp_all add: unat_of_nat_byte)

lemma encode_decode: "encode_utf8 t = Some raw \<Longrightarrow> decode_utf8 raw = Some t"
proof -
  assume "encode_utf8 t = Some raw"
  then obtain bs where bs: "encode_utf8_nat t = Some bs" "raw = map of_nat bs"
    by (auto simp: encode_utf8_def)
  have "map unat raw = bs" unfolding bs(2) using encode_nat_bytes [OF bs(1)] by (rule map_unat_of_nat)
  then show ?thesis using encode_decode_nat [OF bs(1)] by (simp add: decode_utf8_def)
qed

lemma encode_decode_sig:
  assumes "encode_utf8 t = Some raw"
  shows "decode_utf8_sig raw \<noteq> None"
proof (cases "take 3 raw = [0xEF, 0xBB, 0xBF]")
  case False
  then show ?thesis using encode_decode [OF assms] by (simp add: decode_utf8_sig_def)
next
  case True
  obtain bs where bs: "encode_utf8_nat t = Some bs" "raw = map of_nat bs"
    using assms by (auto simp: encode_utf8_def)
  have ub: "map unat raw = bs"
    unfolding bs(2) using encode_nat_bytes [OF bs(1)] by (rule map_unat_of_nat)
  have "take 3 (map unat raw) = map unat [0xEF, 0xBB, 0xBF :: 8 word]"
    by (simp only: take_map True)
  then have t3: "take 3 bs = [0xEF, 0xBB, 0xBF]" unfolding ub by simp
  then have "bs \<noteq> []" by auto
  then obtain c t' where t: "t = c # t'" using bs(1) by (cases t) auto
  from bs(1) obtain bc bt where b: "encode_cp c = Some bc" "encode_utf8_nat t' = Some bt"
      "bs = bc @ bt"
    unfolding t by (auto split: option.splits)
  from b(1) have "length bc = 3"
  proof (cases rule: encode_cp_cases)
    case one
    then show ?thesis using t3 b(3) by simp
  next
    case two
    have "c div 64 < 32" using two(2) div_bounds(1) [of c 64 32] by simp
    then show ?thesis using t3 b(3) two(3) by simp
  next
    case three
    then show ?thesis by simp
  next
    case four
    then show ?thesis using t3 b(3) by simp
  qed
  then have "drop 3 bs = bt" using b(3) by simp
  then have "map unat (drop 3 raw) = bt" unfolding ub [symmetric] by (simp only: drop_map)
  then have "decode_utf8 (drop 3 raw) = Some t'"
    using encode_decode_nat [OF b(2)] by (simp add: decode_utf8_def)
  then show ?thesis using True by (simp add: decode_utf8_sig_def)
qed

lemma reencoded_differs:
  "decode_utf8_sig raw = None \<Longrightarrow> encode_utf8 t = Some new_bytes \<Longrightarrow> new_bytes \<noteq> raw"
  using encode_decode_sig by blast

section \<open>The exits of \<open>process_file\<close>\<close>

lemma process_file_unreadable:
  "files w p = None \<Longrightarrow> process_file codecs p rf ag ck rs w = (Inr False, w)"
  by (simp add: process_file_def)

lemma process_file_binary:
  "files w p = Some raw \<Longrightarrow> \<not> is_potentially_text p (take 8192 raw) \<Longrightarrow>
   process_file codecs p rf ag ck rs w = (Inr False, w)"
  by (simp add: process_file_def)

lemma process_file_undecodable:
  "files w p = Some raw \<Longrightarrow> decode_file codecs raw rf = Inr None \<Longrightarrow>
   process_file codecs p rf ag ck rs w = (Inr False, w)"
  by (simp add: process_file_def)

lemma process_file_raise_decode:
  "files w p = Some raw \<Longrightarrow> is_potentially_text p (take 8192 raw) \<Longrightarrow>
   decode_file codecs raw rf = Inl e \<Longrightarrow>
   process_file codecs p rf ag ck rs w = (Inl e, w)"
  by (simp add: process_file_def)

lemma process_file_raise_encode:
  "files w p = Some raw \<Longrightarrow> is_potentially_text p (take 8192 raw) \<Longrightarrow>
   decode_file codecs raw rf = Inr (Some d) \<Longrightarrow>
   encode_utf8 (normalize_text d INDENT_SIZE True ag (is_makefile_like p)) = None \<Longrightarrow>
   process_file codecs p rf ag ck rs w = (Inl UnicodeEncodeError, w)"
  by (simp add: process_file_def)

lemma process_file_decoded:
  "files w p = Some raw \<Longrightarrow> is_potentially_text p (take 8192 raw) \<Longrightarrow>
   decode_file codecs raw rf = Inr (Some d) \<Longrightarrow>
   encode_utf8 (normalize_text d INDENT_SIZE True ag (is_makefile_like p)) = Some nb \<Longrightarrow>
   process_file codecs p rf ag ck rs w = write_back p raw nb ck rs w"
  by (simp add: process_file_def)

lemma process_file_skipped:
  "skipped codecs rf w p \<Longrightarrow> process_file codecs p rf ag ck rs w = (Inr False, w)"
  by (auto simp: skipped_def process_file_def split: option.splits)

section \<open>Claims about \<open>normalize_text\<close>\<close>

text \<open>
  Claim C3. Normalization is idempotent: for every text and every configuration (any
  indent size, tab conversion on or off, aggressive or not, tabs kept or not), normalizing
  the normalized text gives the normalized text again.
\<close>

theorem normalize_idempotent:
  "normalize_text (normalize_text s n c a k) n c a k = normalize_text s n c a k"
  by (rule normalize_text_idem)

theorem normalize_idempotent_witness:
  "normalize_text (normalize_text [TAB, 97, TAB, SP, CR, LF, 98] 4 True False False) 4 True False False
     = [SP, SP, SP, SP, 97, LF, 98, LF]"
proof -
  have e: "normalize_text [TAB, 97, TAB, SP, CR, LF, 98] 4 True False False
      = [SP, SP, SP, SP, 97, LF, 98, LF]"
    by code_simp
  show ?thesis
    using normalize_idempotent [of "[TAB, 97, TAB, SP, CR, LF, 98]" 4 True False False]
    unfolding e .
qed

text \<open>
  Claim C4. For every input the output of \<open>normalize_text\<close> is not empty and ends with
  LF. It is the processed lines joined by LF, with one LF appended exactly when the joined
  text does not end with one already, which is when the input has a single line or its
  last line is not blank. The output ends with two LFs only when the input itself ends
  with blank lines: exactly when it has at least three lines and the last two are blank;
  such trailing blank lines are kept, not collapsed.
\<close>

theorem final_newline:
  "normalize_text s n c a k \<noteq> []
   \<and> last (normalize_text s n c a k) = LF
   \<and> normalize_text s n c a k =
       join [LF] (map (normalize_line n c a k) (split_on LF (unify_newlines s)))
       @ (if 2 \<le> length (split_on LF (unify_newlines s))
             \<and> blank (last (split_on LF (unify_newlines s)))
          then [] else [LF])
   \<and> (endswith (normalize_text s n c a k) [LF, LF] \<longleftrightarrow>
        3 \<le> length (split_on LF (unify_newlines s))
        \<and> blank (last (split_on LF (unify_newlines s)))
        \<and> blank (last (butlast (split_on LF (unify_newlines s)))))"
  using normalize_text_last [of s n c a k] normalize_text_shape [of s n c a k]
    normalize_text_two_lf [of s n c a k]
  by blast

theorem final_newline_witness:
  "normalize_text [97, LF, SP, LF, TAB] 4 True False False = [97, LF, LF]
   \<and> endswith (normalize_text [97, LF, SP, LF, TAB] 4 True False False) [LF, LF]
   \<and> split_on LF (unify_newlines [97, LF, SP, LF, TAB]) = [[97], [SP], [TAB]]
   \<and> normalize_text [97] 4 True False False = [97, LF]
   \<and> \<not> endswith (normalize_text [97] 4 True False False) [LF, LF]"
proof -
  have 1: "split_on LF (unify_newlines [97, LF, SP, LF, TAB]) = [[97], [SP], [TAB]]"
    by code_simp
  have 2: "split_on LF (unify_newlines [97]) = [[97]]"
    by code_simp
  have 3: "blank [TAB]" "blank [SP]" "\<not> blank [97]"
    by (simp_all add: blank_def)
  have 4: "normalize_line 4 True False False [97] = [97]"
    "normalize_line 4 True False False [SP] = []"
    "normalize_line 4 True False False [TAB] = []"
    by code_simp+
  show ?thesis
    using final_newline [of "[97, LF, SP, LF, TAB]" 4 True False False]
      final_newline [of "[97]" 4 True False False]
    unfolding 1 2 by (auto simp: 3 4)
qed

text \<open>
  Claim C7. The two \<open>replace\<close> calls of the source together are the one-pass
  unification of the specification (every CR-LF pair and every lone CR becomes one LF);
  it runs before the split, so no line holds a CR or an LF, and the output of
  \<open>normalize_text\<close> holds no CR.
\<close>

theorem newline_unification:
  "unify_newlines s = unify_spec s
   \<and> CR \<notin> set (unify_newlines s)
   \<and> (\<forall>l \<in> set (split_on LF (unify_newlines s)). CR \<notin> set l \<and> LF \<notin> set l)
   \<and> CR \<notin> set (normalize_text s n c a k)"
proof -
  have "\<forall>l \<in> set (split_on LF (unify_newlines s)). CR \<notin> set l \<and> LF \<notin> set l"
    using set_split_on [of _ LF "unify_newlines s"] unify_newlines_no_cr [of s]
      split_on_no_sep [of _ LF "unify_newlines s"]
    by blast
  then show ?thesis
    using unify_eq_spec [of s] unify_newlines_no_cr [of s] normalize_text_no_cr [of s n c a k]
    by blast
qed

theorem newline_unification_witness:
  "unify_newlines [97, CR, LF, 98, CR, 99, LF, CR, CR, LF] = [97, LF, 98, LF, 99, LF, LF, LF]
   \<and> normalize_text [97, CR, LF, 98, CR, 99, LF, CR, CR, LF] 4 True False False
       = [97, LF, 98, LF, 99, LF, LF, LF]
   \<and> CR \<notin> set (normalize_text [97, CR, LF, 98, CR, 99, LF, CR, CR, LF] 4 True False False)"
proof -
  have 1: "unify_spec [97, CR, LF, 98, CR, 99, LF, CR, CR, LF] = [97, LF, 98, LF, 99, LF, LF, LF]"
    by simp
  have 2: "normalize_text [97, CR, LF, 98, CR, 99, LF, CR, CR, LF] 4 True False False
       = [97, LF, 98, LF, 99, LF, LF, LF]"
    by code_simp
  show ?thesis
    using newline_unification [of "[97, CR, LF, 98, CR, 99, LF, CR, CR, LF]" 4 True False False]
    unfolding 1 2 by simp
qed

text \<open>
  Claim C8. With indent size 4 and tab conversion enabled, the line \<open>"\tfoo\tbar"\<close>
  becomes \<open>"    foo\tbar"\<close> plus the final LF in the default mode and
  \<open>"    foo    bar"\<close> plus the final LF in the aggressive mode. In general the default
  mode expands the tabs of the leading run of spaces and tabs only and leaves the rest of
  the line as it is (before the trailing trim).
\<close>

theorem leading_vs_aggressive:
  "normalize_text (TAB # ustr ''foo'' @ TAB # ustr ''bar'') 4 True False False
     = ustr ''    foo'' @ TAB # ustr ''bar'' @ [LF]
   \<and> normalize_text (TAB # ustr ''foo'' @ TAB # ustr ''bar'') 4 True True False
     = ustr ''    foo    bar'' @ [LF]
   \<and> normalize_line n True False False l
     = rstrip (replace (takeWhile (\<lambda>c. c \<in> {SP, TAB}) l) [TAB] (spaces n)
               @ dropWhile (\<lambda>c. c \<in> {SP, TAB}) l) [SP, TAB]"
proof -
  have 1: "normalize_text (TAB # ustr ''foo'' @ TAB # ustr ''bar'') 4 True False False
     = ustr ''    foo'' @ TAB # ustr ''bar'' @ [LF]"
    by code_simp
  have 2: "normalize_text (TAB # ustr ''foo'' @ TAB # ustr ''bar'') 4 True True False
     = ustr ''    foo    bar'' @ [LF]"
    by code_simp
  have 3: "normalize_line n True False False l
     = rstrip (replace (takeWhile (\<lambda>c. c \<in> {SP, TAB}) l) [TAB] (spaces n)
               @ dropWhile (\<lambda>c. c \<in> {SP, TAB}) l) [SP, TAB]"
    by (simp add: normalize_line_alt convert_line_def)
  from 1 2 3 show ?thesis by blast
qed

theorem leading_vs_aggressive_witness:
  "normalize_line 4 True False False (TAB # ustr ''foo'' @ TAB # ustr ''bar  '')
     = ustr ''    foo'' @ TAB # ustr ''bar''"
proof -
  have "rstrip (replace (takeWhile (\<lambda>c. c \<in> {SP, TAB}) (TAB # ustr ''foo'' @ TAB # ustr ''bar  ''))
                  [TAB] (spaces 4)
               @ dropWhile (\<lambda>c. c \<in> {SP, TAB}) (TAB # ustr ''foo'' @ TAB # ustr ''bar  '')) [SP, TAB]
        = ustr ''    foo'' @ TAB # ustr ''bar''"
    by code_simp
  then show ?thesis
    using leading_vs_aggressive [of 4 "TAB # ustr ''foo'' @ TAB # ustr ''bar  ''"] by simp
qed

text \<open>
  Claim C1, as stated, fails: for the tab-sensitive path \<open>Makefile\<close> the input
  \<open>"a\t"\<close> holds a tab and the output \<open>"a\n"\<close> holds none, with the aggressive flag
  off and on. The trailing trim removes spaces and tabs for every file.
\<close>

theorem makefile_tab_removed_counterexample:
  "is_makefile_like ''Makefile''
   \<and> TAB \<in> set [97, TAB]
   \<and> normalize_text [97, TAB] 4 True False (is_makefile_like ''Makefile'') = [97, LF]
   \<and> normalize_text [97, TAB] 4 True True (is_makefile_like ''Makefile'') = [97, LF]"
proof -
  have m: "is_makefile_like ''Makefile''" by code_simp
  have "normalize_text [97, TAB] 4 True False True = [97, LF]" by code_simp
  moreover have "normalize_text [97, TAB] 4 True True True = [97, LF]" by code_simp
  ultimately show ?thesis using m by simp
qed

text \<open>
  Claim C1, amended. For every path classified as tab-sensitive, \<open>normalize_text\<close>
  expands no tab, whatever the indent size and the aggressive flag: the output is the
  lines of the newline-unified input, each without its trailing run of spaces and tabs,
  joined by LF and closed by a final LF. Each output line is a prefix of its input line
  and what is cut off is blank, so every tab outside a trailing run of spaces and tabs
  stays where it is.
\<close>

theorem makefile_tabs_only_trimmed:
  assumes "is_makefile_like p"
  shows "normalize_text s n c a (is_makefile_like p) =
           join [LF] (map (\<lambda>l. rstrip l [SP, TAB]) (split_on LF (unify_newlines s)))
           @ (if 2 \<le> length (split_on LF (unify_newlines s))
                 \<and> blank (last (split_on LF (unify_newlines s)))
              then [] else [LF])
         \<and> (\<forall>l \<in> set (split_on LF (unify_newlines s)).
               \<exists>t. l = rstrip l [SP, TAB] @ t \<and> blank t)
         \<and> normalize_text s n c True (is_makefile_like p)
             = normalize_text s n c False (is_makefile_like p)"
proof -
  have nl: "normalize_line n c x True = (\<lambda>l. rstrip l [SP, TAB])" for x
    by (rule ext) (simp add: normalize_line_def)
  have 1: "normalize_text s n c x True =
           join [LF] (map (\<lambda>l. rstrip l [SP, TAB]) (split_on LF (unify_newlines s)))
           @ (if 2 \<le> length (split_on LF (unify_newlines s))
                 \<and> blank (last (split_on LF (unify_newlines s)))
              then [] else [LF])" for x
    using normalize_text_shape [of s n c x True] unfolding nl .
  have 2: "\<exists>t. l = rstrip l [SP, TAB] @ t \<and> blank t" for l
    using rstrip_prefix [of l "[SP, TAB]"] by (auto simp: blank_def list_all_iff)
  show ?thesis using assms 1 [of a] 1 [of True] 1 [of False] 2 by simp
qed

theorem makefile_tabs_only_trimmed_witness:
  "is_makefile_like ''src/rules.mk''
   \<and> normalize_text [97, 58, LF, TAB, 98, TAB, 99, SP, TAB] 4 True True (is_makefile_like ''src/rules.mk'')
       = [97, 58, LF, TAB, 98, TAB, 99, LF]"
proof -
  have m: "is_makefile_like ''src/rules.mk''" by code_simp
  have 1: "split_on LF (unify_newlines [97, 58, LF, TAB, 98, TAB, 99, SP, TAB])
      = [[97, 58], [TAB, 98, TAB, 99, SP, TAB]]"
    by code_simp
  have 2: "rstrip [97, 58] [SP, TAB] = [97, 58]"
    "rstrip [TAB, 98, TAB, 99, SP, TAB] [SP, TAB] = [TAB, 98, TAB, 99]"
    by code_simp+
  have 3: "\<not> blank [TAB, 98, TAB, 99, SP, TAB]" by (simp add: blank_def)
  show ?thesis
    using makefile_tabs_only_trimmed [OF m, of "[97, 58, LF, TAB, 98, TAB, 99, SP, TAB]" 4 True True] m
    unfolding 1 by (simp add: 2 3)
qed

section \<open>Further facts about the pipeline\<close>

lemma set_unify_spec: "set (unify_spec s) \<subseteq> set s \<union> {LF}"
  by (induction s rule: unify_spec.induct) auto

lemma normalize_text_set: "set (normalize_text s n c a k) \<subseteq> set s \<union> {SP, LF}"
proof -
  define out where "out = map (normalize_line n c a k) (split_on LF (unify_newlines s))"
  have "set l \<subseteq> set s \<union> {SP, LF}" if "l \<in> set out" for l
  proof -
    from that obtain l0 where l0: "l0 \<in> set (split_on LF (unify_newlines s))"
        "l = normalize_line n c a k l0"
      by (auto simp: out_def)
    have "set l0 \<subseteq> set s \<union> {LF}"
      using set_split_on [OF l0(1)] set_unify_spec [of s] by (auto simp: unify_eq_spec)
    then show ?thesis using normalize_line_set [of n c a k l0] l0(2) by blast
  qed
  then have "\<Union> (set ` set out) \<subseteq> set s \<union> {SP, LF}" by blast
  then have "set (join [LF] out) \<subseteq> set s \<union> {SP, LF}"
    using set_join [of "[LF]" out] by fastforce
  then show ?thesis by (auto simp: normalize_text_alt out_def split: if_splits)
qed

lemma scalar_encode_nat: "scalar_text t \<Longrightarrow> encode_utf8_nat t \<noteq> None"
proof (induction t)
  case Nil
  then show ?case by simp
next
  case (Cons c t)
  then have "encode_cp c \<noteq> None" by (auto simp: scalar_text_def encode_cp_def)
  moreover have "encode_utf8_nat t \<noteq> None" using Cons by (simp add: scalar_text_def)
  ultimately show ?case by auto
qed

lemma scalar_normalize: "scalar_text t \<Longrightarrow> scalar_text (normalize_text t n c a k)"
  using normalize_text_set [of t n c a k] unfolding scalar_text_def list_all_iff by fastforce

lemma scalar_encodable:
  "scalar_text t \<Longrightarrow> \<exists>nb. encode_utf8 (normalize_text t n c a k) = Some nb"
  using scalar_encode_nat [OF scalar_normalize, of t n c a k] by (auto simp: encode_utf8_def)

lemma decode_file_fallback:
  assumes "decode_utf8_sig raw = None" "enc \<noteq> []"
  shows "decode_file codecs raw (Some enc) =
           (case bytes_decode codecs raw enc of
              Inr decoded \<Rightarrow> Inr (Some decoded)
            | Inl UnicodeDecodeError \<Rightarrow> Inr None
            | Inl e \<Rightarrow> Inl e)"
  using assms by (simp add: decode_file_def)

lemma decode_file_no_fallback:
  "decode_utf8_sig raw = None \<Longrightarrow> decode_file codecs raw None = Inr None"
  "decode_utf8_sig raw = None \<Longrightarrow> decode_file codecs raw (Some []) = Inr None"
  by (simp_all add: decode_file_def)

lemma empty_file:
  "decode_file codecs [] rf = Inr (Some [])"
  "encode_utf8 [LF] = Some [0x0A]"
  by (simp_all add: decode_file_def decode_utf8_sig_def decode_utf8_def encode_utf8_def
      encode_cp_def)

lemma normalize_text_empty: "normalize_text [] n c a k = [LF]"
  by (simp add: normalize_text_def unify_newlines_def endswith_def)

lemma write_back_changed_check:
  "nb \<noteq> raw \<Longrightarrow>
   write_back p raw nb True rs w = (Inr True, w\<lparr>stdout := stdout w @ [''NEEDS-FIX '' @ p]\<rparr>)"
  by (simp add: write_back_def)

lemma write_back_changed_write:
  "nb \<noteq> raw \<Longrightarrow> write_fails w p = None \<Longrightarrow>
   fst (write_back p raw nb False rs w) = Inr True
   \<and> files (snd (write_back p raw nb False rs w)) = (files w)(p \<mapsto> nb)
   \<and> stdout (snd (write_back p raw nb False rs w)) = stdout w @ [''Fixed '' @ p]
   \<and> git_added (snd (write_back p raw nb False rs w))
       = (if rs then git_added w @ [p] else git_added w)"
  by (simp add: write_back_def Let_def)

lemma write_back_failed:
  "nb \<noteq> raw \<Longrightarrow> write_fails w p = Some (msg, r) \<Longrightarrow>
   write_back p raw nb False rs w = (Inr False, failed_write p nb msg r w)"
  by (simp add: write_back_def)

lemma failed_write_fields:
  "stderr (failed_write p nb msg r w) = stderr w @ [''ERROR writing '' @ p @ '': '' @ msg]"
  "stdout (failed_write p nb msg r w) = stdout w"
  "git_added (failed_write p nb msg r w) = git_added w"
  "write_fails (failed_write p nb msg r w) = write_fails w"
  "files (failed_write p nb msg r w)
     = (case r of None \<Rightarrow> files w | Some k \<Rightarrow> (files w)(p \<mapsto> take k nb))"
  by (simp_all add: failed_write_def Let_def split: option.splits)

section \<open>The loop of \<open>main\<close> as a fold\<close>

lemma foldl_step_file_Inl: "foldl (step_file codecs a) (Inl e, w) ps = (Inl e, w)"
  by (induction ps) (simp_all add: step_file_def)

lemma run_files_foldl:
  "run_files codecs a ps any_changes w = foldl (step_file codecs a) (Inr any_changes, w) ps"
proof (induction ps arbitrary: any_changes w)
  case Nil
  show ?case by simp
next
  case (Cons p ps)
  show ?case
  proof (cases "prefix ''.git/'' p")
    case True
    then have step: "step_file codecs a (Inr any_changes, w) p = (Inr any_changes, w)"
      by (simp add: step_file_def)
    show ?thesis using True Cons.IH by (simp add: step)
  next
    case False
    obtain r w' where pf: "process_file codecs p (arg_recode_from a) (arg_aggressive_tabs a)
        (arg_check a) (arg_restage a) w = (r, w')"
      by (cases "process_file codecs p (arg_recode_from a) (arg_aggressive_tabs a)
        (arg_check a) (arg_restage a) w") auto
    show ?thesis
    proof (cases r)
      case (Inl e)
      then have step: "step_file codecs a (Inr any_changes, w) p = (Inl e, w')"
        using False pf by (simp add: step_file_def)
      show ?thesis using False pf Inl by (simp add: step foldl_step_file_Inl)
    next
      case (Inr changed)
      then have step: "step_file codecs a (Inr any_changes, w) p
          = (Inr (any_changes \<or> changed), w')"
        using False pf by (simp add: step_file_def)
      show ?thesis using False pf Inr Cons.IH by (simp add: step)
    qed
  qed
qed

section \<open>Check mode\<close>

lemma process_file_check_needs_fix:
  "needs_fix codecs rf ag w p \<Longrightarrow>
   process_file codecs p rf ag True rs w
     = (Inr True, w\<lparr>stdout := stdout w @ [''NEEDS-FIX '' @ p]\<rparr>)"
  by (auto simp: needs_fix_def process_file_def write_back_def
      split: option.splits sum.splits)

lemma process_file_file_raises:
  "file_raises codecs rf ag w p \<Longrightarrow> \<exists>e. process_file codecs p rf ag ck rs w = (Inl e, w)"
  by (auto simp: file_raises_def process_file_def split: option.splits sum.splits)

lemma process_file_check_quiet:
  "\<not> needs_fix codecs rf ag w p \<Longrightarrow> \<not> file_raises codecs rf ag w p \<Longrightarrow>
   process_file codecs p rf ag True rs w = (Inr False, w)"
  by (auto simp: needs_fix_def file_raises_def process_file_def write_back_def
      split: option.splits sum.splits)

lemma needs_fix_not_raises: "needs_fix codecs rf ag w p \<Longrightarrow> \<not> file_raises codecs rf ag w p"
  by (auto simp: needs_fix_def file_raises_def split: option.splits sum.splits)

lemma needs_fix_files:
  "files w' = files w \<Longrightarrow> needs_fix codecs rf ag w' p = needs_fix codecs rf ag w p"
  by (simp add: needs_fix_def)

lemma file_raises_files:
  "files w' = files w \<Longrightarrow> file_raises codecs rf ag w' p = file_raises codecs rf ag w p"
  by (simp add: file_raises_def)

lemma process_file_check_frame:
  "files (snd (process_file codecs p rf ag True rs w)) = files w
   \<and> git_added (snd (process_file codecs p rf ag True rs w)) = git_added w"
proof (cases "file_raises codecs rf ag w p")
  case True
  then show ?thesis using process_file_file_raises [of codecs rf ag w p True rs] by auto
next
  case nr: False
  show ?thesis
  proof (cases "needs_fix codecs rf ag w p")
    case True
    then show ?thesis by (simp add: process_file_check_needs_fix)
  next
    case False
    then show ?thesis using nr by (simp add: process_file_check_quiet)
  qed
qed

text \<open>
  The loop of \<open>main\<close> in check mode: the bytes of the files stay as they were in the
  first world \<open>w0\<close>, so which files need changes and which raise is decided there.
\<close>

lemma run_files_check:
  assumes "arg_check a" "files w = files w0"
  shows "files (snd (run_files codecs a ps any_changes w)) = files w0
     \<and> git_added (snd (run_files codecs a ps any_changes w)) = git_added w
     \<and> (case fst (run_files codecs a ps any_changes w) of
           Inl e \<Rightarrow> \<exists>p \<in> set ps. \<not> prefix ''.git/'' p
                      \<and> file_raises codecs (arg_recode_from a) (arg_aggressive_tabs a) w0 p
         | Inr b \<Rightarrow>
             (b \<longleftrightarrow> any_changes \<or> (\<exists>p \<in> set ps. \<not> prefix ''.git/'' p
                      \<and> needs_fix codecs (arg_recode_from a) (arg_aggressive_tabs a) w0 p))
             \<and> (\<forall>p \<in> set ps. \<not> prefix ''.git/'' p \<longrightarrow>
                   \<not> file_raises codecs (arg_recode_from a) (arg_aggressive_tabs a) w0 p))"
  using assms(2)
proof (induction ps arbitrary: any_changes w)
  case Nil
  then show ?case by simp
next
  case (Cons p ps)
  let ?rf = "arg_recode_from a" and ?ag = "arg_aggressive_tabs a"
  show ?case
  proof (cases "prefix ''.git/'' p")
    case True
    then show ?thesis
      using Cons.IH [OF Cons.prems, of any_changes] by (auto split: sum.splits)
  next
    case ng: False
    have ck: "arg_check a = True" using assms(1) by simp
    show ?thesis
    proof (cases "file_raises codecs ?rf ?ag w p")
      case True
      then obtain e where e: "process_file codecs p ?rf ?ag True (arg_restage a) w = (Inl e, w)"
        using process_file_file_raises by blast
      have "file_raises codecs ?rf ?ag w0 p"
        using True file_raises_files [OF Cons.prems] by simp
      then show ?thesis using ng e Cons.prems by (simp add: ck)
    next
      case nr: False
      then have nr0: "\<not> file_raises codecs ?rf ?ag w0 p"
        using file_raises_files [OF Cons.prems] by simp
      show ?thesis
      proof (cases "needs_fix codecs ?rf ?ag w p")
        case True
        let ?w' = "w\<lparr>stdout := stdout w @ [''NEEDS-FIX '' @ p]\<rparr>"
        have pf: "process_file codecs p ?rf ?ag True (arg_restage a) w = (Inr True, ?w')"
          using True by (rule process_file_check_needs_fix)
        have f': "files ?w' = files w0" using Cons.prems by simp
        have n0: "needs_fix codecs ?rf ?ag w0 p"
          using True needs_fix_files [OF Cons.prems] by simp
        have step: "run_files codecs a (p # ps) any_changes w = run_files codecs a ps True ?w'"
          using ng pf by (simp add: ck)
        show ?thesis
          unfolding step using Cons.IH [OF f', of True] n0 nr0 ng
          by (auto split: sum.splits)
      next
        case False
        have pf: "process_file codecs p ?rf ?ag True (arg_restage a) w = (Inr False, w)"
          using False nr by (rule process_file_check_quiet)
        have n0: "\<not> needs_fix codecs ?rf ?ag w0 p"
          using False needs_fix_files [OF Cons.prems] by simp
        have step: "run_files codecs a (p # ps) any_changes w
            = run_files codecs a ps any_changes w"
          using ng pf by (simp add: ck)
        show ?thesis
          unfolding step using Cons.IH [OF Cons.prems, of any_changes] n0 nr0 ng
          by (auto split: sum.splits)
      qed
    qed
  qed
qed

lemma main_check_frame:
  assumes "arg_check a"
  shows "files (snd (main codecs a w)) = files w \<and> git_added (snd (main codecs a w)) = git_added w"
proof -
  have "files (snd (run_files codecs a ps False w)) = files w
      \<and> git_added (snd (run_files codecs a ps False w)) = git_added w" for ps
    using run_files_check [OF assms refl, of codecs ps False w] by simp
  then show ?thesis
    by (auto simp: main_def Let_def split: prod.splits sum.splits)
       (metis snd_conv)+
qed

lemma main_check_result:
  assumes "arg_check a" "in_repo w"
  shows "case fst (main codecs a w) of
           Inl e \<Rightarrow> \<exists>p \<in> set (list_tracked_files (arg_staged a) w). \<not> prefix ''.git/'' p
                      \<and> file_raises codecs (arg_recode_from a) (arg_aggressive_tabs a) w p
         | Inr code \<Rightarrow>
             code = (if \<exists>p \<in> set (list_tracked_files (arg_staged a) w). \<not> prefix ''.git/'' p
                        \<and> needs_fix codecs (arg_recode_from a) (arg_aggressive_tabs a) w p
                     then 1 else 0)
             \<and> (\<forall>p \<in> set (list_tracked_files (arg_staged a) w). \<not> prefix ''.git/'' p \<longrightarrow>
                   \<not> file_raises codecs (arg_recode_from a) (arg_aggressive_tabs a) w p)"
proof -
  define fs where "fs = list_tracked_files (arg_staged a) w"
  show ?thesis
  proof (cases "fs = []")
    case True
    then show ?thesis using assms by (simp add: main_def fs_def [symmetric])
  next
    case False
    note R = run_files_check [OF assms(1) refl, of codecs fs False w]
    obtain r w' where rw: "run_files codecs a fs False w = (r, w')"
      by (cases "run_files codecs a fs False w") auto
    show ?thesis
    proof (cases r)
      case (Inl e)
      then have "main codecs a w = (Inl e, w')"
        using False assms rw by (simp add: main_def fs_def [symmetric])
      then show ?thesis using R rw Inl by (simp add: fs_def [symmetric])
    next
      case (Inr b)
      then have "fst (main codecs a w) = Inr (if b then 1 else 0)"
        using False assms rw by (simp add: main_def fs_def [symmetric])
      then show ?thesis using R rw Inr by (auto simp: fs_def [symmetric])
    qed
  qed
qed

section \<open>Claims about \<open>process_file\<close> and \<open>main\<close>\<close>

text \<open>
  Claim C10, as stated, fails: the zero-byte file \<open>empty.png\<close> is readable and its bytes
  decode (to the empty text), yet its extension is in the binary set, so \<open>process_file\<close>
  returns \<open>False\<close> in check mode and in write mode and leaves the world as it is.
\<close>

theorem empty_binary_file_skipped_counterexample:
  "files (ex_world [(''empty.png'', [])] [] [''empty.png'']) ''empty.png'' = Some []
   \<and> decode_utf8_sig [] = Some []
   \<and> process_file ex_codecs ''empty.png'' None False True False
        (ex_world [(''empty.png'', [])] [] [''empty.png''])
       = (Inr False, ex_world [(''empty.png'', [])] [] [''empty.png''])
   \<and> process_file ex_codecs ''empty.png'' None False False False
        (ex_world [(''empty.png'', [])] [] [''empty.png''])
       = (Inr False, ex_world [(''empty.png'', [])] [] [''empty.png''])"
proof -
  have f: "files (ex_world [(''empty.png'', [])] [] [''empty.png'']) ''empty.png'' = Some []"
    by (simp add: ex_world_def)
  have d: "decode_utf8_sig [] = Some []"
    by (simp add: decode_utf8_sig_def decode_utf8_def)
  have b: "\<not> is_potentially_text ''empty.png'' (take 8192 [])" by code_simp
  show ?thesis using f d process_file_binary [OF f b] by simp
qed

text \<open>
  Claim C10, amended. The output of \<open>normalize_text\<close> is never empty and is a single LF
  for the empty text. Consequently a readable zero-byte file whose extension is not in
  the binary set is reported in check mode (\<open>NEEDS-FIX\<close>, result \<open>True\<close>), and in write
  mode, when the write does not fail, it is rewritten to hold exactly one LF byte and
  reported as fixed.
\<close>

theorem empty_text_file_changed:
  "normalize_text s n c a k \<noteq> []
   \<and> normalize_text [] n c a k = [LF]
   \<and> (files w p = Some [] \<and> lower (path_suffix p) \<notin> BINARY_EXTS \<longrightarrow>
        process_file codecs p rf ag True rs w
          = (Inr True, w\<lparr>stdout := stdout w @ [''NEEDS-FIX '' @ p]\<rparr>)
        \<and> (write_fails w p = None \<longrightarrow>
              fst (process_file codecs p rf ag False rs w) = Inr True
              \<and> files (snd (process_file codecs p rf ag False rs w)) = (files w)(p \<mapsto> [0x0A])
              \<and> stdout (snd (process_file codecs p rf ag False rs w))
                  = stdout w @ [''Fixed '' @ p]))"
proof -
  have 1: "normalize_text s n c a k \<noteq> []" using normalize_text_last [of s n c a k] by simp
  have 2: "normalize_text [] n c a k = [LF]" by (rule normalize_text_empty)
  have 3: "process_file codecs p rf ag ck rs w = write_back p [] [0x0A] ck rs w"
    if "files w p = Some []" "lower (path_suffix p) \<notin> BINARY_EXTS" for ck
  proof -
    have t: "is_potentially_text p (take 8192 [])"
      using that(2) by (simp add: is_potentially_text_def looks_binary_bytes_def)
    show ?thesis
      by (rule process_file_decoded [OF that(1) t empty_file(1)])
         (simp add: normalize_text_empty empty_file(2))
  qed
  show ?thesis using 1 2 3 by (auto simp: write_back_def Let_def)
qed

theorem empty_text_file_changed_witness:
  "process_file ex_codecs ''empty.txt'' None False True False
        (ex_world [(''empty.txt'', [])] [] [''empty.txt''])
     = (Inr True, (ex_world [(''empty.txt'', [])] [] [''empty.txt''])
                    \<lparr>stdout := [''NEEDS-FIX empty.txt'']\<rparr>)
   \<and> files (snd (process_file ex_codecs ''empty.txt'' None False False False
        (ex_world [(''empty.txt'', [])] [] [''empty.txt'']))) ''empty.txt'' = Some [0x0A]"
proof -
  have f: "files (ex_world [(''empty.txt'', [])] [] [''empty.txt'']) ''empty.txt'' = Some []"
    "write_fails (ex_world [(''empty.txt'', [])] [] [''empty.txt'']) ''empty.txt'' = None"
    "stdout (ex_world [(''empty.txt'', [])] [] [''empty.txt'']) = []"
    by (simp_all add: ex_world_def)
  have b: "lower (path_suffix ''empty.txt'') \<notin> BINARY_EXTS" by code_simp
  show ?thesis
    using empty_text_file_changed [of "[]" 4 True False False
        "ex_world [(''empty.txt'', [])] [] [''empty.txt'']" "''empty.txt''" ex_codecs None False False]
      f b
    by simp
qed

text \<open>
  Claim C9, as stated, fails for the empty encoding name: the platform knows no encoding
  of that name, the file passes the text classification and is not valid UTF-8, yet
  \<open>process_file\<close> returns \<open>False\<close>, because \<open>if recode_from:\<close> treats the empty string as
  no fallback.
\<close>

theorem empty_codec_name_counterexample:
  "ex_codecs [] = None
   \<and> files (ex_world [(''a.txt'', [0xE9])] [] [''a.txt'']) ''a.txt'' = Some [0xE9]
   \<and> is_potentially_text ''a.txt'' (take 8192 [0xE9])
   \<and> decode_utf8_sig [0xE9] = None
   \<and> process_file ex_codecs ''a.txt'' (Some []) False False False
        (ex_world [(''a.txt'', [0xE9])] [] [''a.txt''])
       = (Inr False, ex_world [(''a.txt'', [0xE9])] [] [''a.txt''])"
proof -
  have c: "ex_codecs [] = None" by (simp add: ex_codecs_def)
  have f: "files (ex_world [(''a.txt'', [0xE9])] [] [''a.txt'']) ''a.txt'' = Some [0xE9]"
    by (simp add: ex_world_def)
  have t: "is_potentially_text ''a.txt'' (take 8192 [0xE9])" by code_simp
  have d: "decode_utf8_sig [0xE9] = None" by code_simp
  show ?thesis
    using c f t d process_file_undecodable [OF f decode_file_no_fallback(2) [OF d]] by simp
qed

text \<open>
  Claim C9, amended. If the fallback option is a non-empty name that the platform does
  not know, then for every readable file that passes the text classification and is not
  valid UTF-8, \<open>process_file\<close> raises \<open>LookupError\<close> in every mode, with no effect on the
  world, and the exception leaves the loop of \<open>main\<close> uncaught.
\<close>

theorem unknown_codec_raises:
  assumes "files w p = Some raw"
    and "is_potentially_text p (take 8192 raw)"
    and "decode_utf8_sig raw = None"
    and "enc \<noteq> []"
    and "codecs enc = None"
  shows "process_file codecs p (Some enc) ag ck rs w = (Inl LookupError, w)
     \<and> (arg_recode_from a = Some enc \<and> \<not> prefix ''.git/'' p \<longrightarrow>
          run_files codecs a (p # ps) any_changes w = (Inl LookupError, w))"
proof -
  have "decode_file codecs raw (Some enc) = Inl LookupError"
    using assms(3,4,5) by (simp add: decode_file_fallback bytes_decode_def)
  then have "process_file codecs p (Some enc) ag ck rs w = (Inl LookupError, w)" for ag ck rs
    by (rule process_file_raise_decode [OF assms(1,2)])
  then show ?thesis by simp
qed

theorem unknown_codec_raises_witness:
  "process_file ex_codecs ''a.txt'' (Some ''cp9999'') False False False
        (ex_world [(''a.txt'', [0xE9])] [] [''a.txt''])
     = (Inl LookupError, ex_world [(''a.txt'', [0xE9])] [] [''a.txt''])
   \<and> run_files ex_codecs (ex_args False False (Some ''cp9999'') False) [''a.txt'', ''b.txt'']
        False (ex_world [(''a.txt'', [0xE9])] [] [''a.txt''])
     = (Inl LookupError, ex_world [(''a.txt'', [0xE9])] [] [''a.txt''])"
proof -
  have c: "ex_codecs ''cp9999'' = None" by (simp add: ex_codecs_def)
  have f: "files (ex_world [(''a.txt'', [0xE9])] [] [''a.txt'']) ''a.txt'' = Some [0xE9]"
    by (simp add: ex_world_def)
  have t: "is_potentially_text ''a.txt'' (take 8192 [0xE9])" by code_simp
  have d: "decode_utf8_sig [0xE9] = None" by code_simp
  have n: "''cp9999'' \<noteq> []" by simp
  have a: "arg_recode_from (ex_args False False (Some ''cp9999'') False) = Some ''cp9999''"
    by (simp add: ex_args_def)
  have g: "\<not> prefix ''.git/'' ''a.txt''" by simp
  show ?thesis
    using unknown_codec_raises [where codecs = ex_codecs and enc = "''cp9999''"
        and ag = False and ck = False and rs = False
        and a = "ex_args False False (Some ''cp9999'') False" and ps = "[''b.txt'']"
        and any_changes = False, OF f t d n c] a g
    by simp
qed

text \<open>
  Claim C6, as stated, fails: the bytes \<open>E9 00\<close> are not valid UTF-8 and are valid
  Latin-1, and Latin-1 is supplied as the fallback, yet the file is not decoded: it holds
  a NUL byte, so the classifier skips it as binary before any decoding.
\<close>

theorem fallback_skipped_as_binary_counterexample:
  "ex_codecs ''latin-1'' = Some decode_latin1
   \<and> decode_utf8_sig [0xE9, 0x00] = None
   \<and> decode_latin1 [0xE9, 0x00] = Inr [0xE9, 0]
   \<and> files (ex_world [(''a.txt'', [0xE9, 0x00])] [] [''a.txt'']) ''a.txt'' = Some [0xE9, 0x00]
   \<and> process_file ex_codecs ''a.txt'' (Some ''latin-1'') False False False
        (ex_world [(''a.txt'', [0xE9, 0x00])] [] [''a.txt''])
       = (Inr False, ex_world [(''a.txt'', [0xE9, 0x00])] [] [''a.txt''])"
proof -
  have c: "ex_codecs ''latin-1'' = Some decode_latin1" by (simp add: ex_codecs_def)
  have d: "decode_utf8_sig [0xE9, 0x00] = None" by code_simp
  have l: "decode_latin1 [0xE9, 0x00] = Inr [0xE9, 0]" by (simp add: decode_latin1_def)
  have f: "files (ex_world [(''a.txt'', [0xE9, 0x00])] [] [''a.txt'']) ''a.txt'' = Some [0xE9, 0x00]"
    by (simp add: ex_world_def)
  have b: "\<not> is_potentially_text ''a.txt'' (take 8192 [0xE9, 0x00])" by code_simp
  show ?thesis using c d l f process_file_binary [OF f b] by simp
qed

text \<open>
  Claim C6, amended. For a readable file that passes the text classification and whose
  bytes are not valid UTF-8 (a leading byte-order mark tolerated): with a non-empty
  fallback name that the platform knows and whose decoder accepts the bytes, the text is
  the fallback's; when it consists of Unicode scalar values its normalization encodes to
  UTF-8, the new bytes always differ from the old ones, check mode reports the file, and
  write mode stores the new bytes when the write does not fail; when the write fails the
  result is \<open>False\<close> and the error line is printed. With no fallback the file is skipped,
  and so it is when the fallback's decoder rejects the bytes with a Unicode decode error.
\<close>

theorem decode_two_tier:
  assumes "files w p = Some raw"
    and "is_potentially_text p (take 8192 raw)"
    and "decode_utf8_sig raw = None"
  shows "(enc \<noteq> [] \<and> codecs enc = Some dec \<and> dec raw = Inr t \<longrightarrow>
            decode_file codecs raw (Some enc) = Inr (Some t)
            \<and> (scalar_text t \<longrightarrow>
                 (\<exists>nb. encode_utf8 (normalize_text t INDENT_SIZE True ag (is_makefile_like p))
                        = Some nb))
            \<and> (\<forall>nb. encode_utf8 (normalize_text t INDENT_SIZE True ag (is_makefile_like p))
                        = Some nb \<longrightarrow>
                   nb \<noteq> raw
                   \<and> process_file codecs p (Some enc) ag True rs w
                       = (Inr True, w\<lparr>stdout := stdout w @ [''NEEDS-FIX '' @ p]\<rparr>)
                   \<and> (write_fails w p = None \<longrightarrow>
                         fst (process_file codecs p (Some enc) ag False rs w) = Inr True
                         \<and> files (snd (process_file codecs p (Some enc) ag False rs w))
                             = (files w)(p \<mapsto> nb))
                   \<and> (\<forall>msg r. write_fails w p = Some (msg, r) \<longrightarrow>
                         process_file codecs p (Some enc) ag False rs w
                           = (Inr False, failed_write p nb msg r w))))
         \<and> decode_file codecs raw None = Inr None
         \<and> process_file codecs p None ag ck rs w = (Inr False, w)
         \<and> (enc \<noteq> [] \<and> codecs enc = Some dec \<and> dec raw = Inl UnicodeDecodeError \<longrightarrow>
               decode_file codecs raw (Some enc) = Inr None
               \<and> process_file codecs p (Some enc) ag ck rs w = (Inr False, w))"
proof -
  have none: "decode_file codecs raw None = Inr None"
    using assms(3) by (rule decode_file_no_fallback(1))
  have skip1: "process_file codecs p None ag ck rs w = (Inr False, w)"
    by (rule process_file_undecodable [OF assms(1) none])
  have bad: "decode_file codecs raw (Some enc) = Inr None
      \<and> process_file codecs p (Some enc) ag ck rs w = (Inr False, w)"
    if "enc \<noteq> []" "codecs enc = Some dec" "dec raw = Inl UnicodeDecodeError"
  proof -
    have "decode_file codecs raw (Some enc) = Inr None"
      using that assms(3) by (simp add: decode_file_fallback bytes_decode_def)
    then show ?thesis using process_file_undecodable [OF assms(1)] by simp
  qed
  have good: "decode_file codecs raw (Some enc) = Inr (Some t)"
    if "enc \<noteq> []" "codecs enc = Some dec" "dec raw = Inr t"
    using that assms(3) by (simp add: decode_file_fallback bytes_decode_def)
  have enc_ok: "scalar_text t \<Longrightarrow>
      \<exists>nb. encode_utf8 (normalize_text t INDENT_SIZE True ag (is_makefile_like p)) = Some nb"
    by (rule scalar_encodable)
  have res: "nb \<noteq> raw
      \<and> process_file codecs p (Some enc) ag True rs w
          = (Inr True, w\<lparr>stdout := stdout w @ [''NEEDS-FIX '' @ p]\<rparr>)
      \<and> (write_fails w p = None \<longrightarrow>
            fst (process_file codecs p (Some enc) ag False rs w) = Inr True
            \<and> files (snd (process_file codecs p (Some enc) ag False rs w)) = (files w)(p \<mapsto> nb))
      \<and> (\<forall>msg r. write_fails w p = Some (msg, r) \<longrightarrow>
            process_file codecs p (Some enc) ag False rs w
              = (Inr False, failed_write p nb msg r w))"
    if "enc \<noteq> []" "codecs enc = Some dec" "dec raw = Inr t"
      "encode_utf8 (normalize_text t INDENT_SIZE True ag (is_makefile_like p)) = Some nb" for nb
  proof -
    have ne: "nb \<noteq> raw" using assms(3) that(4) by (rule reencoded_differs)
    have pf: "process_file codecs p (Some enc) ag ck' rs w = write_back p raw nb ck' rs w" for ck'
      by (rule process_file_decoded [OF assms(1,2) good [OF that(1,2,3)] that(4)])
    show ?thesis
      using ne write_back_changed_check [OF ne] write_back_changed_write [OF ne]
        write_back_failed [OF ne]
      by (simp add: pf)
  qed
  show ?thesis using none skip1 bad good enc_ok res by blast
qed

theorem decode_two_tier_witness:
  "process_file ex_codecs ''a.txt'' (Some ''latin-1'') False True False
        (ex_world [(''a.txt'', [0x63, 0xE9, 0x09])] [] [''a.txt''])
     = (Inr True, (ex_world [(''a.txt'', [0x63, 0xE9, 0x09])] [] [''a.txt''])
                     \<lparr>stdout := [''NEEDS-FIX a.txt'']\<rparr>)
   \<and> files (snd (process_file ex_codecs ''a.txt'' (Some ''latin-1'') False False False
        (ex_world [(''a.txt'', [0x63, 0xE9, 0x09])] [] [''a.txt'']))) ''a.txt''
       = Some [0x63, 0xC3, 0xA9, 0x0A]
   \<and> process_file ex_codecs ''a.txt'' None False False False
        (ex_world [(''a.txt'', [0x63, 0xE9, 0x09])] [] [''a.txt''])
     = (Inr False, ex_world [(''a.txt'', [0x63, 0xE9, 0x09])] [] [''a.txt''])
   \<and> process_file ex_codecs ''a.txt'' (Some ''ascii'') False False False
        (ex_world [(''a.txt'', [0x63, 0xE9, 0x09])] [] [''a.txt''])
     = (Inr False, ex_world [(''a.txt'', [0x63, 0xE9, 0x09])] [] [''a.txt''])"
proof -
  let ?w = "ex_world [(''a.txt'', [0x63, 0xE9, 0x09])] [] [''a.txt'']"
  have f: "files ?w ''a.txt'' = Some [0x63, 0xE9, 0x09]" by (simp add: ex_world_def)
  have wf: "write_fails ?w ''a.txt'' = None" "stdout ?w = []" by (simp_all add: ex_world_def)
  have t: "is_potentially_text ''a.txt'' (take 8192 [0x63, 0xE9, 0x09])" by code_simp
  have d: "decode_utf8_sig [0x63, 0xE9, 0x09] = None" by code_simp
  have c1: "ex_codecs ''latin-1'' = Some decode_latin1" "''latin-1'' \<noteq> []"
    by (simp_all add: ex_codecs_def)
  have c2: "ex_codecs ''ascii'' = Some decode_ascii" "''ascii'' \<noteq> []"
    by (simp_all add: ex_codecs_def)
  have l: "decode_latin1 [0x63, 0xE9, 0x09] = Inr [0x63, 0xE9, 0x09]"
    by (simp add: decode_latin1_def)
  have a: "decode_ascii [0x63, 0xE9, 0x09] = Inl UnicodeDecodeError"
    by (simp add: decode_ascii_def)
  have e: "encode_utf8 (normalize_text [0x63, 0xE9, 0x09] INDENT_SIZE True False
              (is_makefile_like ''a.txt'')) = Some [0x63, 0xC3, 0xA9, 0x0A]"
    by code_simp
  note T1 = decode_two_tier [where codecs = ex_codecs and enc = "''latin-1''"
      and dec = decode_latin1 and t = "[0x63, 0xE9, 0x09]" and ag = False and rs = False
      and ck = False, OF f t d]
  note T2 = decode_two_tier [where codecs = ex_codecs and enc = "''ascii''"
      and dec = decode_ascii and ag = False and rs = False and ck = False, OF f t d]
  show ?thesis using T1 T2 c1 c2 l a e wf by simp
qed

text \<open>
  Claim C2, as stated, fails: with one tracked file whose write fails, \<open>process_file\<close>
  returns \<open>False\<close>, the very value it returns for a skipped file (here a missing one), and
  \<open>main\<close> returns 0 as in a run without any failure. The result type of \<open>process_file\<close>
  is a boolean; the failure is told apart only by the line on the error stream.
\<close>

theorem write_failure_returns_false_counterexample:
  "write_fails (ex_world [(''a.txt'', [0x61])] [(''a.txt'', (''denied'', None))] [''a.txt''])
       ''a.txt'' = Some (''denied'', None)
   \<and> skipped ex_codecs None
        (ex_world [(''a.txt'', [0x61])] [(''a.txt'', (''denied'', None))] [''a.txt''])
        ''missing.txt''
   \<and> fst (process_file ex_codecs ''a.txt'' None False False True
        (ex_world [(''a.txt'', [0x61])] [(''a.txt'', (''denied'', None))] [''a.txt'']))
       = Inr False
   \<and> fst (process_file ex_codecs ''missing.txt'' None False False True
        (ex_world [(''a.txt'', [0x61])] [(''a.txt'', (''denied'', None))] [''a.txt'']))
       = Inr False
   \<and> fst (main ex_codecs (ex_args False True None False)
        (ex_world [(''a.txt'', [0x61])] [(''a.txt'', (''denied'', None))] [''a.txt'']))
       = Inr 0"
proof -
  let ?w = "ex_world [(''a.txt'', [0x61])] [(''a.txt'', (''denied'', None))] [''a.txt'']"
  let ?a = "ex_args False True None False"
  have a: "arg_check ?a = False" "arg_staged ?a = False" "arg_recode_from ?a = None"
    "arg_aggressive_tabs ?a = False" "arg_restage ?a = True"
    by (simp_all add: ex_args_def)
  have w: "files ?w ''a.txt'' = Some [0x61]" "write_fails ?w ''a.txt'' = Some (''denied'', None)"
    "in_repo ?w" "ls_files ?w = [''a.txt'']"
    by (simp_all add: ex_world_def)
  have t: "is_potentially_text ''a.txt'' (take 8192 [0x61])" by code_simp
  have d: "decode_file ex_codecs [0x61] None = Inr (Some [0x61])" by code_simp
  have e: "encode_utf8 (normalize_text [0x61] INDENT_SIZE True False (is_makefile_like ''a.txt''))
      = Some [0x61, 0x0A]"
    by code_simp
  have n: "[0x61, 0x0A] \<noteq> [0x61 :: 8 word]" by simp
  have pa: "process_file ex_codecs ''a.txt'' None False False True ?w
      = (Inr False, failed_write ''a.txt'' [0x61, 0x0A] ''denied'' None ?w)"
    using process_file_decoded [OF w(1) t d e] write_back_failed [OF n w(2)] by simp
  have s: "skipped ex_codecs None ?w ''missing.txt''"
    by (simp add: skipped_def ex_world_def)
  have pm: "process_file ex_codecs ''missing.txt'' None False False True ?w = (Inr False, ?w)"
    using s by (rule process_file_skipped)
  have m: "fst (main ex_codecs ?a ?w) = Inr 0"
    by (simp add: main_def list_tracked_files_def a w(3,4) pa)
  from w(2) s pa pm m show ?thesis by simp
qed

text \<open>
  Claim C2, amended. In write mode, when the file was read, classified as text, decoded,
  normalized and encoded, the new bytes differ and the write fails, \<open>process_file\<close>
  prints \<open>ERROR writing\<close> with the path and the message on the error stream and returns
  \<open>False\<close>. Every skip returns \<open>False\<close> too but prints nothing, so the two are told apart
  by the error stream only. Nothing is printed on the output stream and nothing is passed
  to \<open>git add\<close>; the file keeps its bytes when it could not be opened and otherwise holds
  the part of the new bytes that was written. The loop of \<open>main\<close> then processes every
  remaining file in turn, with the accumulated result unchanged by the failure: its
  result is the fold of \<open>step_file\<close> over the rest of the list, and \<open>main\<close> returns 0
  unless the processing of a later file raises.
\<close>

theorem write_failure_reported:
  assumes "\<not> arg_check a"
    and "files w p = Some raw"
    and "is_potentially_text p (take 8192 raw)"
    and "decode_file codecs raw (arg_recode_from a) = Inr (Some decoded)"
    and "encode_utf8 (normalize_text decoded INDENT_SIZE True (arg_aggressive_tabs a)
                        (is_makefile_like p)) = Some new_bytes"
    and "new_bytes \<noteq> raw"
    and "write_fails w p = Some (msg, r)"
  shows "process_file codecs p (arg_recode_from a) (arg_aggressive_tabs a) (arg_check a)
           (arg_restage a) w
           = (Inr False, failed_write p new_bytes msg r w)
       \<and> stderr (failed_write p new_bytes msg r w)
           = stderr w @ [''ERROR writing '' @ p @ '': '' @ msg]
       \<and> stdout (failed_write p new_bytes msg r w) = stdout w
       \<and> git_added (failed_write p new_bytes msg r w) = git_added w
       \<and> files (failed_write p new_bytes msg r w)
           = (case r of None \<Rightarrow> files w | Some k \<Rightarrow> (files w)(p \<mapsto> take k new_bytes))
       \<and> (\<forall>q rf ag ck rs. skipped codecs rf w q \<longrightarrow>
             process_file codecs q rf ag ck rs w = (Inr False, w)
             \<and> stderr (snd (process_file codecs q rf ag ck rs w))
                 \<noteq> stderr (snd (process_file codecs p (arg_recode_from a)
                                  (arg_aggressive_tabs a) (arg_check a) (arg_restage a) w)))
       \<and> (\<not> prefix ''.git/'' p \<longrightarrow>
             run_files codecs a (p # ps) any_changes w
               = foldl (step_file codecs a)
                   (Inr any_changes, failed_write p new_bytes msg r w) ps)
       \<and> (\<not> prefix ''.git/'' p \<and> in_repo w \<and> list_tracked_files (arg_staged a) w = p # ps
            \<longrightarrow>
             fst (main codecs a w)
               = (case fst (foldl (step_file codecs a)
                              (Inr False, failed_write p new_bytes msg r w) ps) of
                    Inl e \<Rightarrow> Inl e
                  | Inr any_changes \<Rightarrow> Inr 0))"
proof -
  let ?w' = "failed_write p new_bytes msg r w"
  have pf: "process_file codecs p (arg_recode_from a) (arg_aggressive_tabs a) (arg_check a)
           (arg_restage a) w = (Inr False, ?w')"
    using process_file_decoded [OF assms(2,3,4,5)] write_back_failed [OF assms(6,7)] assms(1)
    by simp
  have sk: "\<forall>q rf ag ck rs. skipped codecs rf w q \<longrightarrow>
             process_file codecs q rf ag ck rs w = (Inr False, w)
             \<and> stderr (snd (process_file codecs q rf ag ck rs w))
                 \<noteq> stderr (snd (process_file codecs p (arg_recode_from a)
                                  (arg_aggressive_tabs a) (arg_check a) (arg_restage a) w))"
    unfolding pf using process_file_skipped by (simp add: failed_write_fields(1))
  have loop: "\<not> prefix ''.git/'' p \<longrightarrow>
             run_files codecs a (p # ps) any_changes w
               = foldl (step_file codecs a) (Inr any_changes, ?w') ps"
    using run_files_foldl [of codecs a ps any_changes ?w'] by (simp add: pf)
  have loop0: "\<not> prefix ''.git/'' p \<longrightarrow>
             run_files codecs a (p # ps) False w = foldl (step_file codecs a) (Inr False, ?w') ps"
    using run_files_foldl [of codecs a ps False ?w'] by (simp add: pf)
  have exit: "\<not> prefix ''.git/'' p \<and> in_repo w \<and> list_tracked_files (arg_staged a) w = p # ps
            \<longrightarrow>
             fst (main codecs a w)
               = (case fst (foldl (step_file codecs a) (Inr False, ?w') ps) of
                    Inl e \<Rightarrow> Inl e
                  | Inr any_changes \<Rightarrow> Inr 0)"
  proof (intro impI, elim conjE)
    assume h: "\<not> prefix ''.git/'' p" "in_repo w" "list_tracked_files (arg_staged a) w = p # ps"
    obtain x wx where x: "foldl (step_file codecs a) (Inr False, ?w') ps = (x, wx)"
      by (cases "foldl (step_file codecs a) (Inr False, ?w') ps") auto
    have "run_files codecs a (p # ps) False w = (x, wx)" using loop0 h(1) x by simp
    then show "fst (main codecs a w)
               = (case fst (foldl (step_file codecs a) (Inr False, ?w') ps) of
                    Inl e \<Rightarrow> Inl e
                  | Inr any_changes \<Rightarrow> Inr 0)"
      unfolding x using h(2,3) assms(1) by (cases x) (simp_all add: main_def)
  qed
  from pf sk loop exit failed_write_fields [of p new_bytes msg r w] show ?thesis by blast
qed

theorem write_failure_reported_witness:
  "fst (run_files ex_codecs (ex_args False True None False) [''a.txt'', ''b.txt''] False
       (ex_world [(''a.txt'', [0x61]), (''b.txt'', [0x62])] [(''a.txt'', (''denied'', Some 0))]
          [''a.txt'', ''b.txt''])) = Inr True
   \<and> stderr (snd (run_files ex_codecs (ex_args False True None False) [''a.txt'', ''b.txt''] False
       (ex_world [(''a.txt'', [0x61]), (''b.txt'', [0x62])] [(''a.txt'', (''denied'', Some 0))]
          [''a.txt'', ''b.txt'']))) = [''ERROR writing a.txt: denied'']
   \<and> stdout (snd (run_files ex_codecs (ex_args False True None False) [''a.txt'', ''b.txt''] False
       (ex_world [(''a.txt'', [0x61]), (''b.txt'', [0x62])] [(''a.txt'', (''denied'', Some 0))]
          [''a.txt'', ''b.txt'']))) = [''Fixed b.txt'']
   \<and> git_added (snd (run_files ex_codecs (ex_args False True None False) [''a.txt'', ''b.txt''] False
       (ex_world [(''a.txt'', [0x61]), (''b.txt'', [0x62])] [(''a.txt'', (''denied'', Some 0))]
          [''a.txt'', ''b.txt'']))) = [''b.txt'']
   \<and> files (snd (run_files ex_codecs (ex_args False True None False) [''a.txt'', ''b.txt''] False
       (ex_world [(''a.txt'', [0x61]), (''b.txt'', [0x62])] [(''a.txt'', (''denied'', Some 0))]
          [''a.txt'', ''b.txt'']))) ''a.txt'' = Some []
   \<and> files (snd (run_files ex_codecs (ex_args False True None False) [''a.txt'', ''b.txt''] False
       (ex_world [(''a.txt'', [0x61]), (''b.txt'', [0x62])] [(''a.txt'', (''denied'', Some 0))]
          [''a.txt'', ''b.txt'']))) ''b.txt'' = Some [0x62, 0x0A]"
proof -
  let ?w = "ex_world [(''a.txt'', [0x61]), (''b.txt'', [0x62])] [(''a.txt'', (''denied'', Some 0))]
          [''a.txt'', ''b.txt'']"
  let ?a = "ex_args False True None False"
  let ?w' = "failed_write ''a.txt'' [0x61, 0x0A] ''denied'' (Some 0) ?w"
  have a: "\<not> arg_check ?a" "arg_recode_from ?a = None" "arg_aggressive_tabs ?a = False"
    "arg_restage ?a = True" "arg_check ?a = False"
    by (simp_all add: ex_args_def)
  have f: "files ?w ''a.txt'' = Some [0x61]" by (simp add: ex_world_def)
  have t: "is_potentially_text ''a.txt'' (take 8192 [0x61])" by code_simp
  have d: "decode_file ex_codecs [0x61] (arg_recode_from ?a) = Inr (Some [0x61])"
    unfolding a by code_simp
  have e: "encode_utf8 (normalize_text [0x61] INDENT_SIZE True (arg_aggressive_tabs ?a)
             (is_makefile_like ''a.txt'')) = Some [0x61, 0x0A]"
    unfolding a by code_simp
  have n: "[0x61, 0x0A] \<noteq> [0x61 :: 8 word]" by simp
  have wf: "write_fails ?w ''a.txt'' = Some (''denied'', Some 0)" "stderr ?w = []"
    "stdout ?w = []" "git_added ?w = []" "write_fails ?w ''b.txt'' = None"
    "files ?w ''b.txt'' = Some [0x62]"
    by (simp_all add: ex_world_def)
  have g: "\<not> prefix ''.git/'' ''a.txt''" "\<not> prefix ''.git/'' ''b.txt''" by simp_all
  note T = write_failure_reported [where codecs = ex_codecs and ps = "[''b.txt'']"
        and any_changes = False, OF a(1) f t d e n wf(1), unfolded a(2-5)]
  have run: "run_files ex_codecs ?a [''a.txt'', ''b.txt''] False ?w
      = step_file ex_codecs ?a (Inr False, ?w') ''b.txt''"
    using T g(1) by simp
  have w': "files ?w' ''b.txt'' = Some [0x62]" "write_fails ?w' ''b.txt'' = None"
    "stderr ?w' = [''ERROR writing a.txt: denied'']" "stdout ?w' = []" "git_added ?w' = []"
    "files ?w' ''a.txt'' = Some []"
    by (simp_all add: failed_write_fields wf)
  have tb: "is_potentially_text ''b.txt'' (take 8192 [0x62])" by code_simp
  have db: "decode_file ex_codecs [0x62] None = Inr (Some [0x62])" by code_simp
  have eb: "encode_utf8 (normalize_text [0x62] INDENT_SIZE True False (is_makefile_like ''b.txt''))
      = Some [0x62, 0x0A]"
    by code_simp
  have nb: "[0x62, 0x0A] \<noteq> [0x62 :: 8 word]" by simp
  have pb: "process_file ex_codecs ''b.txt'' None False False True ?w'
      = write_back ''b.txt'' [0x62] [0x62, 0x0A] False True ?w'"
    by (rule process_file_decoded [OF w'(1) tb db eb])
  note B = write_back_changed_write [OF nb w'(2), of True]
  obtain rb wb where rb: "write_back ''b.txt'' [0x62] [0x62, 0x0A] False True ?w' = (rb, wb)"
    by (cases "write_back ''b.txt'' [0x62] [0x62, 0x0A] False True ?w'") auto
  have B': "rb = Inr True" "files wb = (files ?w')(''b.txt'' \<mapsto> [0x62, 0x0A])"
    "stdout wb = [''Fixed b.txt'']" "git_added wb = [''b.txt'']"
    using B rb by (simp_all add: w')
  have eb': "stderr wb = [''ERROR writing a.txt: denied'']"
    using rb nb w'(2,3) by (auto simp: write_back_def Let_def)
  have res: "run_files ex_codecs ?a [''a.txt'', ''b.txt''] False ?w = (Inr True, wb)"
    unfolding run by (simp add: step_file_def g a(2-5) pb rb B'(1))
  show ?thesis unfolding res using B' eb' w'(6) by simp
qed

text \<open>
  Claim C5, as stated, fails in its last part: in check mode with an unknown fallback
  encoding and one tracked file that is not valid UTF-8, no file needs changes, yet the
  run does not exit with 0: \<open>LookupError\<close> leaves \<open>main\<close> uncaught and the exit status
  is 1.
\<close>

theorem check_mode_crash_counterexample:
  "arg_check (ex_args True False (Some ''cp9999'') False)
   \<and> list_tracked_files (arg_staged (ex_args True False (Some ''cp9999'') False))
        (ex_world [(''a.txt'', [0xE9])] [] [''a.txt'']) = [''a.txt'']
   \<and> \<not> needs_fix ex_codecs (Some ''cp9999'') False
          (ex_world [(''a.txt'', [0xE9])] [] [''a.txt'']) ''a.txt''
   \<and> main ex_codecs (ex_args True False (Some ''cp9999'') False)
        (ex_world [(''a.txt'', [0xE9])] [] [''a.txt''])
       = (Inl LookupError, ex_world [(''a.txt'', [0xE9])] [] [''a.txt''])
   \<and> exit_status (fst (main ex_codecs (ex_args True False (Some ''cp9999'') False)
        (ex_world [(''a.txt'', [0xE9])] [] [''a.txt'']))) = 1"
proof -
  let ?w = "ex_world [(''a.txt'', [0xE9])] [] [''a.txt'']"
  let ?a = "ex_args True False (Some ''cp9999'') False"
  have a: "arg_check ?a" "arg_staged ?a = False" "arg_recode_from ?a = Some ''cp9999''"
    "arg_aggressive_tabs ?a = False" "arg_restage ?a = False"
    by (simp_all add: ex_args_def)
  have w: "in_repo ?w" "ls_files ?w = [''a.txt'']" "files ?w ''a.txt'' = Some [0xE9]"
    by (simp_all add: ex_world_def)
  have t: "is_potentially_text ''a.txt'' (take 8192 [0xE9])" by code_simp
  have d: "decode_utf8_sig [0xE9] = None" by code_simp
  have df: "decode_file ex_codecs [0xE9] (Some ''cp9999'') = Inl LookupError"
    using d by (simp add: decode_file_fallback bytes_decode_def ex_codecs_def)
  have pf: "process_file ex_codecs ''a.txt'' (Some ''cp9999'') False True False ?w
      = (Inl LookupError, ?w)"
    by (rule process_file_raise_decode [OF w(3) t df])
  have nf: "\<not> needs_fix ex_codecs (Some ''cp9999'') False ?w ''a.txt''"
    by (simp add: needs_fix_def w(3) df)
  have l: "list_tracked_files (arg_staged ?a) ?w = [''a.txt'']"
    by (simp add: list_tracked_files_def a w)
  have m: "main ex_codecs ?a ?w = (Inl LookupError, ?w)"
    using a(1) by (simp add: main_def l w(1) a(3,4,5) pf)
  show ?thesis using a(1) l nf m by (simp add: exit_status_def)
qed

text \<open>
  Claim C5, amended. In check mode neither \<open>process_file\<close> nor the whole run changes the
  bytes of any file or passes anything to \<open>git add\<close>. A file that needs changes is
  reported (\<open>NEEDS-FIX\<close>, result \<open>True\<close>); when such a file is among the listed files
  and not under \<open>.git/\<close>, the exit status of the run is 1. When no listed file needs
  changes and the processing of none raises, \<open>main\<close> returns 0.
\<close>

theorem check_mode_never_writes:
  assumes "arg_check a"
  shows "files (snd (process_file codecs p (arg_recode_from a) (arg_aggressive_tabs a)
                       (arg_check a) (arg_restage a) w)) = files w
       \<and> git_added (snd (process_file codecs p (arg_recode_from a) (arg_aggressive_tabs a)
                            (arg_check a) (arg_restage a) w)) = git_added w
       \<and> files (snd (main codecs a w)) = files w
       \<and> git_added (snd (main codecs a w)) = git_added w
       \<and> (needs_fix codecs (arg_recode_from a) (arg_aggressive_tabs a) w p \<longrightarrow>
             process_file codecs p (arg_recode_from a) (arg_aggressive_tabs a) (arg_check a)
               (arg_restage a) w
               = (Inr True, w\<lparr>stdout := stdout w @ [''NEEDS-FIX '' @ p]\<rparr>))
       \<and> (in_repo w \<and> p \<in> set (list_tracked_files (arg_staged a) w) \<and> \<not> prefix ''.git/'' p
            \<and> needs_fix codecs (arg_recode_from a) (arg_aggressive_tabs a) w p \<longrightarrow>
             exit_status (fst (main codecs a w)) = 1)
       \<and> (in_repo w
            \<and> (\<forall>q \<in> set (list_tracked_files (arg_staged a) w). \<not> prefix ''.git/'' q \<longrightarrow>
                  \<not> needs_fix codecs (arg_recode_from a) (arg_aggressive_tabs a) w q
                  \<and> \<not> file_raises codecs (arg_recode_from a) (arg_aggressive_tabs a) w q) \<longrightarrow>
             fst (main codecs a w) = Inr 0)"
proof -
  have ck: "arg_check a = True" using assms by simp
  have 1: "files (snd (process_file codecs p (arg_recode_from a) (arg_aggressive_tabs a)
                       (arg_check a) (arg_restage a) w)) = files w
       \<and> git_added (snd (process_file codecs p (arg_recode_from a) (arg_aggressive_tabs a)
                            (arg_check a) (arg_restage a) w)) = git_added w"
    unfolding ck by (rule process_file_check_frame)
  have 2: "files (snd (main codecs a w)) = files w
       \<and> git_added (snd (main codecs a w)) = git_added w"
    using assms by (rule main_check_frame)
  have 3: "needs_fix codecs (arg_recode_from a) (arg_aggressive_tabs a) w p \<longrightarrow>
             process_file codecs p (arg_recode_from a) (arg_aggressive_tabs a) (arg_check a)
               (arg_restage a) w
               = (Inr True, w\<lparr>stdout := stdout w @ [''NEEDS-FIX '' @ p]\<rparr>)"
    unfolding ck using process_file_check_needs_fix by blast
  have 4: "exit_status (fst (main codecs a w)) = 1"
    if "in_repo w" "p \<in> set (list_tracked_files (arg_staged a) w)" "\<not> prefix ''.git/'' p"
      "needs_fix codecs (arg_recode_from a) (arg_aggressive_tabs a) w p"
    using main_check_result [OF assms that(1), of codecs] that(2,3,4)
    by (cases "fst (main codecs a w)") (auto simp: exit_status_def)
  have 5: "fst (main codecs a w) = Inr 0"
    if "in_repo w"
      "\<forall>q \<in> set (list_tracked_files (arg_staged a) w). \<not> prefix ''.git/'' q \<longrightarrow>
          \<not> needs_fix codecs (arg_recode_from a) (arg_aggressive_tabs a) w q
          \<and> \<not> file_raises codecs (arg_recode_from a) (arg_aggressive_tabs a) w q"
    using main_check_result [OF assms that(1), of codecs] that(2)
    by (cases "fst (main codecs a w)") auto
  from 1 2 3 4 5 show ?thesis by blast
qed

theorem check_mode_never_writes_witness:
  "main ex_codecs (ex_args True True None False)
       (ex_world [(''a.txt'', [0x61]), (''b.txt'', [0x62, 0x0A])] [] [''a.txt'', ''b.txt''])
     = (Inr 1, (ex_world [(''a.txt'', [0x61]), (''b.txt'', [0x62, 0x0A])] [] [''a.txt'', ''b.txt''])
                 \<lparr>stdout := [''NEEDS-FIX a.txt'']\<rparr>)
   \<and> exit_status (fst (main ex_codecs (ex_args True True None False)
       (ex_world [(''a.txt'', [0x61]), (''b.txt'', [0x62, 0x0A])] [] [''a.txt'', ''b.txt'']))) = 1
   \<and> files (snd (main ex_codecs (ex_args True True None False)
       (ex_world [(''a.txt'', [0x61]), (''b.txt'', [0x62, 0x0A])] [] [''a.txt'', ''b.txt''])))
       ''a.txt'' = Some [0x61]
   \<and> fst (main ex_codecs (ex_args True True None False)
       (ex_world [(''b.txt'', [0x62, 0x0A])] [] [''b.txt''])) = Inr 0"
proof -
  let ?w = "ex_world [(''a.txt'', [0x61]), (''b.txt'', [0x62, 0x0A])] [] [''a.txt'', ''b.txt'']"
  let ?v = "ex_world [(''b.txt'', [0x62, 0x0A])] [] [''b.txt'']"
  let ?a = "ex_args True True None False"
  have a: "arg_check ?a" "arg_staged ?a = False" "arg_recode_from ?a = None"
    "arg_aggressive_tabs ?a = False" "arg_restage ?a = True" "arg_check ?a = True"
    by (simp_all add: ex_args_def)
  have w: "in_repo ?w" "ls_files ?w = [''a.txt'', ''b.txt'']" "files ?w ''a.txt'' = Some [0x61]"
    "files ?w ''b.txt'' = Some [0x62, 0x0A]" "stdout ?w = []"
    by (simp_all add: ex_world_def)
  have v: "in_repo ?v" "ls_files ?v = [''b.txt'']" "files ?v ''b.txt'' = Some [0x62, 0x0A]"
    by (simp_all add: ex_world_def)
  have ta: "is_potentially_text ''a.txt'' (take 8192 [0x61])" by code_simp
  have tb: "is_potentially_text ''b.txt'' (take 8192 [0x62, 0x0A])" by code_simp
  have ta': "is_potentially_text ''a.txt'' [0x61]" using ta by simp
  have tb': "is_potentially_text ''b.txt'' [0x62, 0x0A]" using tb by simp
  have da: "decode_file ex_codecs [0x61] None = Inr (Some [0x61])" by code_simp
  have db: "decode_file ex_codecs [0x62, 0x0A] None = Inr (Some [0x62, 0x0A])" by code_simp
  have ea: "encode_utf8 (normalize_text [0x61] INDENT_SIZE True False (is_makefile_like ''a.txt''))
      = Some [0x61, 0x0A]"
    by code_simp
  have eb: "encode_utf8 (normalize_text [0x62, 0x0A] INDENT_SIZE True False
      (is_makefile_like ''b.txt'')) = Some [0x62, 0x0A]"
    by code_simp
  have nfa: "needs_fix ex_codecs None False ?w ''a.txt''"
    by (simp add: needs_fix_def w ta' da ea)
  have nfb: "\<not> needs_fix ex_codecs None False ?v ''b.txt''"
    "\<not> file_raises ex_codecs None False ?v ''b.txt''"
    by (simp_all add: needs_fix_def file_raises_def v tb' db eb)
  have pb: "process_file ex_codecs ''b.txt'' None False True True w' = (Inr False, w')"
    if "files w' ''b.txt'' = Some [0x62, 0x0A]" for w'
    by (simp add: process_file_decoded [OF that tb db eb] write_back_def)
  have la: "list_tracked_files (arg_staged ?a) ?w = [''a.txt'', ''b.txt'']"
    "list_tracked_files (arg_staged ?a) ?v = [''b.txt'']"
    by (simp_all add: list_tracked_files_def a w v)
  note T = check_mode_never_writes [OF a(1), of ex_codecs "''a.txt''" ?w,
      unfolded a(2-6) w(5)]
  note V = check_mode_never_writes [OF a(1), of ex_codecs "''b.txt''" ?v, unfolded a(2-6)]
  have pa: "process_file ex_codecs ''a.txt'' None False True True ?w
      = (Inr True, ?w\<lparr>stdout := [''NEEDS-FIX a.txt'']\<rparr>)"
    using T nfa by simp
  have m: "main ex_codecs ?a ?w = (Inr 1, ?w\<lparr>stdout := [''NEEDS-FIX a.txt'']\<rparr>)"
    using a(1) by (simp add: main_def la w(1) a(3,4,5) pa pb w(4))
  have e: "exit_status (fst (main ex_codecs ?a ?w)) = 1"
    using T nfa w(1) la(1) by (simp add: list_tracked_files_def w(2))
  have f: "files (snd (main ex_codecs ?a ?w)) ''a.txt'' = Some [0x61]"
    using T w(3) by simp
  have z: "fst (main ex_codecs ?a ?v) = Inr 0"
    using V nfb v(1) by (simp add: list_tracked_files_def v(2))
  from m e f z show ?thesis by blast
qed

end
